theory Spec2Isabelle
  imports Main
begin

section \<open>Grid path search of ROBOT.py: data model\<close>

text \<open>
  A cell is a pair of Python integers (row, column). The grid is a list of rows of
  occupancy values (0 is free), the visited table a list of rows of booleans, and the
  predecessor dictionary maps a cell to its predecessor or to \<open>None\<close> (the start).
  The frontier (deque or stack) is a list in Python's order: \<open>append\<close> adds at the end.
\<close>

type_synonym cell = "int \<times> int"
type_synonym grid = "int list list"
type_synonym visited = "bool list list"
type_synonym parent = "cell \<rightharpoonup> cell option"
type_synonym state = "cell list \<times> visited \<times> parent"

datatype error = IndexError | KeyError

text \<open>\<^verbatim>\<open>directions = [(-1, 0), (1, 0), (0, -1), (0, 1)]\<close>\<close>

definition directions :: "cell list" where
  "directions = [(-1, 0), (1, 0), (0, -1), (0, 1)]"

text \<open>
  Subscripting a Python list of length \<open>n\<close>: the positions \<open>0 .. n - 1\<close> are
  themselves, \<open>-n .. -1\<close> stand for \<open>n + i\<close>, and every other subscript raises
  IndexError. \<^verbatim>\<open>xs[i]\<close> reads and \<^verbatim>\<open>xs[i] = v\<close> writes at that position.
\<close>

definition position :: "nat \<Rightarrow> int \<Rightarrow> nat option" where
  "position n i =
     (if 0 \<le> i \<and> i < int n then Some (nat i)
      else if - int n \<le> i \<and> i < 0 then Some (nat (int n + i))
      else None)"

definition getitem :: "'a list \<Rightarrow> int \<Rightarrow> error + 'a" where
  "getitem xs i =
     (case position (length xs) i of None \<Rightarrow> Inl IndexError | Some k \<Rightarrow> Inr (xs ! k))"

definition setitem :: "'a list \<Rightarrow> int \<Rightarrow> 'a \<Rightarrow> error + 'a list" where
  "setitem xs i v =
     (case position (length xs) i of None \<Rightarrow> Inl IndexError | Some k \<Rightarrow> Inr (xs[k := v]))"

lemma position_nat: "0 \<le> i \<Longrightarrow> nat i < n \<Longrightarrow> position n i = Some (nat i)"
  by (auto simp: position_def)

lemma position_Some: "position n i = Some k \<Longrightarrow> k < n \<and> (0 \<le> i \<longrightarrow> k = nat i)"
  by (auto simp: position_def split: if_splits)

lemma getitem_nat: "0 \<le> i \<Longrightarrow> nat i < length xs \<Longrightarrow> getitem xs i = Inr (xs ! nat i)"
  by (simp add: getitem_def position_nat)

lemma setitem_nat: "0 \<le> i \<Longrightarrow> nat i < length xs \<Longrightarrow> setitem xs i v = Inr (xs[nat i := v])"
  by (simp add: setitem_def position_nat)

lemma getitem_Inr:
  "getitem xs i = Inr v \<Longrightarrow> 0 \<le> i \<Longrightarrow> nat i < length xs \<and> v = xs ! nat i"
  by (auto simp: getitem_def split: option.splits dest: position_Some)

section \<open>The move validator\<close>

text \<open>
  \<^verbatim>\<open>return 0 <= x < len(grid) and 0 <= y < len(grid[0]) and grid[x][y] == 0 and not visited[x][y]\<close>
  with the short-circuit order of \<^verbatim>\<open>and\<close>: a later conjunct is evaluated (and can
  raise) only when the earlier ones are true.
\<close>

definition is_valid_move :: "int \<Rightarrow> int \<Rightarrow> grid \<Rightarrow> visited \<Rightarrow> error + bool" where
  "is_valid_move x y grid visited =
     (if \<not> (0 \<le> x \<and> x < int (length grid)) then Inr False
      else case getitem grid 0 of Inl e \<Rightarrow> Inl e | Inr row0 \<Rightarrow>
        if \<not> (0 \<le> y \<and> y < int (length row0)) then Inr False
        else case getitem grid x of Inl e \<Rightarrow> Inl e | Inr row \<Rightarrow>
          case getitem row y of Inl e \<Rightarrow> Inl e | Inr occ \<Rightarrow>
            if occ \<noteq> 0 then Inr False
            else case getitem visited x of Inl e \<Rightarrow> Inl e | Inr vrow \<Rightarrow>
              case getitem vrow y of Inl e \<Rightarrow> Inl e | Inr seen \<Rightarrow> Inr (\<not> seen))"

section \<open>The visited table\<close>

text \<open>
  \<^verbatim>\<open>[[False for _ in range(len(grid[0]))] for _ in range(len(grid))]\<close>: for an empty
  grid the outer range is empty and \<^verbatim>\<open>grid[0]\<close> is never evaluated.
\<close>

definition new_visited :: "grid \<Rightarrow> visited" where
  "new_visited grid =
     (case grid of [] \<Rightarrow> []
      | row0 # _ \<Rightarrow> replicate (length grid) (replicate (length row0) False))"

text \<open>\<^verbatim>\<open>visited[x][y] = True\<close>; the rows are separate lists, so only row \<open>x\<close> changes.\<close>

definition mark :: "visited \<Rightarrow> int \<Rightarrow> int \<Rightarrow> error + visited" where
  "mark visited x y =
     (case getitem visited x of Inl e \<Rightarrow> Inl e | Inr vrow \<Rightarrow>
        case setitem vrow y True of Inl e \<Rightarrow> Inl e | Inr vrow' \<Rightarrow>
          setitem visited x vrow')"

section \<open>Expanding a cell\<close>

text \<open>
  The body of \<^verbatim>\<open>for direction in directions\<close>, which is the same text in \<^verbatim>\<open>bfs\<close> (lines
  29 to 34) and in \<^verbatim>\<open>dfs\<close> (lines 56 to 61) up to the name of the frontier variable.
\<close>

definition visit :: "grid \<Rightarrow> cell \<Rightarrow> cell \<Rightarrow> state \<Rightarrow> error + state" where
  "visit grid current direction st =
     (case st of (frontier, visited, parent) \<Rightarrow>
        let new_x = fst current + fst direction; new_y = snd current + snd direction in
        case is_valid_move new_x new_y grid visited of Inl e \<Rightarrow> Inl e
        | Inr ok \<Rightarrow>
            if ok then
              (case mark visited new_x new_y of Inl e \<Rightarrow> Inl e
               | Inr visited' \<Rightarrow>
                   Inr (frontier @ [(new_x, new_y)], visited',
                        parent((new_x, new_y) \<mapsto> Some current)))
            else Inr st)"

fun explore :: "grid \<Rightarrow> cell \<Rightarrow> cell list \<Rightarrow> state \<Rightarrow> error + state" where
  "explore grid current [] st = Inr st"
| "explore grid current (d # ds) st =
     (case visit grid current d st of Inl e \<Rightarrow> Inl e
      | Inr st' \<Rightarrow> explore grid current ds st')"

section \<open>Path reconstruction\<close>

text \<open>
  \<^verbatim>\<open>while current: path.append(current); current = parent[current]\<close>. A cell is a
  2-tuple, which is always true in Python, so the loop stops at \<open>None\<close> only; a missing
  key raises KeyError; on a cyclic dictionary the loop would not return, which is the
  value \<open>None\<close> of the model.
\<close>

partial_function (option) walk_back ::
  "parent \<Rightarrow> cell option \<Rightarrow> cell list \<Rightarrow> (error + cell list) option" where
  [code]: "walk_back parent current path =
     (case current of None \<Rightarrow> Some (Inr path)
      | Some c \<Rightarrow>
          (case parent c of None \<Rightarrow> Some (Inl KeyError)
           | Some nxt \<Rightarrow> walk_back parent nxt (path @ [c])))"

text \<open>\<^verbatim>\<open>return path[::-1]\<close>\<close>

definition reconstruct :: "parent \<Rightarrow> cell \<Rightarrow> (error + cell list) option" where
  "reconstruct parent current =
     (case walk_back parent (Some current) [] of None \<Rightarrow> None
      | Some (Inl e) \<Rightarrow> Some (Inl e)
      | Some (Inr path) \<Rightarrow> Some (Inr (rev path)))"

section \<open>Termination measure of the main loops\<close>

definition unvisited :: "visited \<Rightarrow> nat" where
  "unvisited visited = length (filter Not (concat visited))"

lemma filter_Not_update:
  "j < length row \<Longrightarrow> \<not> row ! j \<Longrightarrow>
   Suc (length (filter Not (row[j := True]))) = length (filter Not row)"
proof (induction row arbitrary: j)
  case Nil
  then show ?case by simp
next
  case (Cons b row)
  then show ?case by (cases j) auto
qed

lemma unvisited_update:
  "i < length visited \<Longrightarrow> j < length (visited ! i) \<Longrightarrow> \<not> visited ! i ! j \<Longrightarrow>
   Suc (unvisited (visited[i := (visited ! i)[j := True]])) = unvisited visited"
proof (induction visited arbitrary: i)
  case Nil
  then show ?case by simp
next
  case (Cons row visited)
  show ?case
  proof (cases i)
    case 0
    with Cons.prems filter_Not_update [of j row] show ?thesis
      by (simp add: unvisited_def)
  next
    case (Suc k)
    with Cons.prems Cons.IH [of k] show ?thesis
      by (simp add: unvisited_def)
  qed
qed

lemma visit_measure:
  assumes "visit grid current d (frontier, visited, parent) = Inr (frontier', visited', parent')"
  shows "unvisited visited' + length frontier' = unvisited visited + length frontier"
proof -
  let ?x = "fst current + fst d" and ?y = "snd current + snd d"
  show ?thesis
  proof (cases "is_valid_move ?x ?y grid visited = Inr True")
    case False
    with assms show ?thesis
      by (auto simp: visit_def Let_def split: sum.splits if_splits)
  next
    case True
    then have x: "0 \<le> ?x" "nat ?x < length visited"
      and y: "0 \<le> ?y" "nat ?y < length (visited ! nat ?x)"
      and seen: "\<not> visited ! nat ?x ! nat ?y"
      by (auto simp: is_valid_move_def split: sum.splits if_splits dest!: getitem_Inr)
    from x y have m: "mark visited ?x ?y =
        Inr (visited[nat ?x := (visited ! nat ?x)[nat ?y := True]])"
      by (simp add: mark_def getitem_nat setitem_nat)
    from assms True m have
      "visited' = visited[nat ?x := (visited ! nat ?x)[nat ?y := True]]"
      "frontier' = frontier @ [(?x, ?y)]"
      by (auto simp: visit_def Let_def)
    with unvisited_update [OF x(2) y(2) seen] show ?thesis by simp
  qed
qed

lemma explore_measure:
  "explore grid current ds (frontier, visited, parent) = Inr (frontier', visited', parent') \<Longrightarrow>
   unvisited visited' + length frontier' = unvisited visited + length frontier"
proof (induction ds arbitrary: frontier visited parent)
  case Nil
  then show ?case by simp
next
  case (Cons d ds)
  from Cons.prems obtain f1 v1 p1 where
    v: "visit grid current d (frontier, visited, parent) = Inr (f1, v1, p1)"
    and e: "explore grid current ds (f1, v1, p1) = Inr (frontier', visited', parent')"
    by (auto split: sum.splits)
  from Cons.IH [OF e] visit_measure [OF v] show ?case by simp
qed

section \<open>Breadth-first search\<close>

text \<open>
  The loop \<^verbatim>\<open>while queue\<close> of \<^verbatim>\<open>bfs\<close>: \<^verbatim>\<open>popleft\<close> takes the head of the list.
  The result is \<open>None\<close> when the call does not return, \<open>Some (Inl e)\<close> when it raises
  \<open>e\<close>, and \<open>Some (Inr path)\<close> when it returns \<open>path\<close>.
\<close>

function bfs_loop :: "grid \<Rightarrow> cell \<Rightarrow> state \<Rightarrow> (error + cell list) option" where
  "bfs_loop grid dest (queue, visited, parent) =
     (case queue of [] \<Rightarrow> Some (Inr [])
      | current # rest \<Rightarrow>
          if current = dest then reconstruct parent current
          else (case explore grid current directions (rest, visited, parent) of
                  Inl e \<Rightarrow> Some (Inl e)
                | Inr st' \<Rightarrow> bfs_loop grid dest st'))"
  by pat_completeness auto
termination
proof (relation "measure (\<lambda>(grid, dest, queue, visited, parent). unvisited visited + length queue)")
  show "wf (measure (\<lambda>(grid, dest, queue, visited, parent). unvisited visited + length queue))"
    by simp
next
  fix grid :: grid and dest :: cell and queue visited parent current rest st'
  assume "queue = current # rest"
    and "explore grid current directions (rest, visited, parent) = Inr st'"
  then show "((grid, dest, st'), (grid, dest, queue, visited, parent))
      \<in> measure (\<lambda>(grid, dest, queue, visited, parent). unvisited visited + length queue)"
    using explore_measure [of grid current directions rest visited parent "fst st'" "fst (snd st')" "snd (snd st')"]
    by (cases st') auto
qed

definition bfs :: "cell \<Rightarrow> cell \<Rightarrow> grid \<Rightarrow> (error + cell list) option" where
  "bfs start dest grid =
     (case mark (new_visited grid) (fst start) (snd start) of Inl e \<Rightarrow> Some (Inl e)
      | Inr visited \<Rightarrow> bfs_loop grid dest ([start], visited, [start \<mapsto> None]))"

section \<open>Depth-first search\<close>

text \<open>The loop \<^verbatim>\<open>while stack\<close> of \<^verbatim>\<open>dfs\<close>: \<^verbatim>\<open>pop\<close> takes the last element of the list.\<close>

function dfs_loop :: "grid \<Rightarrow> cell \<Rightarrow> state \<Rightarrow> (error + cell list) option" where
  "dfs_loop grid dest (stack, visited, parent) =
     (if stack = [] then Some (Inr [])
      else if last stack = dest then reconstruct parent (last stack)
      else (case explore grid (last stack) directions (butlast stack, visited, parent) of
              Inl e \<Rightarrow> Some (Inl e)
            | Inr st' \<Rightarrow> dfs_loop grid dest st'))"
  by pat_completeness auto
termination
proof (relation "measure (\<lambda>(grid, dest, stack, visited, parent). unvisited visited + length stack)")
  show "wf (measure (\<lambda>(grid, dest, stack, visited, parent). unvisited visited + length stack))"
    by simp
next
  fix grid :: grid and dest :: cell and stack visited parent st'
  assume "stack \<noteq> []"
    and "explore grid (last stack) directions (butlast stack, visited, parent) = Inr st'"
  then show "((grid, dest, st'), (grid, dest, stack, visited, parent))
      \<in> measure (\<lambda>(grid, dest, stack, visited, parent). unvisited visited + length stack)"
    using explore_measure [of grid "last stack" directions "butlast stack" visited parent "fst st'" "fst (snd st')" "snd (snd st')"]
    by (cases st') auto
qed

definition dfs :: "cell \<Rightarrow> cell \<Rightarrow> grid \<Rightarrow> (error + cell list) option" where
  "dfs start dest grid =
     (case mark (new_visited grid) (fst start) (snd start) of Inl e \<Rightarrow> Some (Inl e)
      | Inr visited \<Rightarrow> dfs_loop grid dest ([start], visited, [start \<mapsto> None]))"

section \<open>Reading the grid and the visited table\<close>

text \<open>The number of columns is \<^verbatim>\<open>len(grid[0])\<close>; a cell is in bounds when
  \<^verbatim>\<open>0 <= x < len(grid) and 0 <= y < len(grid[0])\<close>.\<close>

definition cols :: "grid \<Rightarrow> nat" where
  "cols grid = (case grid of [] \<Rightarrow> 0 | row0 # _ \<Rightarrow> length row0)"

definition in_bounds :: "grid \<Rightarrow> cell \<Rightarrow> bool" where
  "in_bounds grid c =
     (0 \<le> fst c \<and> fst c < int (length grid) \<and> 0 \<le> snd c \<and> snd c < int (cols grid))"

definition rectangular :: "grid \<Rightarrow> bool" where
  "rectangular grid = (\<forall>row \<in> set grid. length row = cols grid)"

definition free :: "grid \<Rightarrow> cell \<Rightarrow> bool" where
  "free grid c = (in_bounds grid c \<and> grid ! nat (fst c) ! nat (snd c) = 0)"

definition seen :: "visited \<Rightarrow> cell \<Rightarrow> bool" where
  "seen visited c =
     (0 \<le> fst c \<and> nat (fst c) < length visited \<and>
      0 \<le> snd c \<and> nat (snd c) < length (visited ! nat (fst c)) \<and>
      visited ! nat (fst c) ! nat (snd c))"

definition table_for :: "grid \<Rightarrow> visited \<Rightarrow> bool" where
  "table_for grid visited =
     (length visited = length grid \<and> (\<forall>row \<in> set visited. length row = cols grid))"

lemma getitem_first: "grid \<noteq> [] \<Longrightarrow> getitem grid 0 = Inr (grid ! 0)"
  using getitem_nat [of 0 grid] by simp

lemma cols_first: "grid \<noteq> [] \<Longrightarrow> cols grid = length (grid ! 0)"
  by (cases grid) (simp_all add: cols_def)

lemma is_valid_move_table:
  assumes "rectangular grid" and "table_for grid visited"
  shows "is_valid_move x y grid visited = Inr (free grid (x, y) \<and> \<not> seen visited (x, y))"
proof (cases "in_bounds grid (x, y)")
  case False
  show ?thesis
  proof (cases "0 \<le> x \<and> x < int (length grid)")
    case False
    then show ?thesis
      by (auto simp: is_valid_move_def in_bounds_def free_def)
  next
    case True
    then have ne: "grid \<noteq> []" by auto
    from True \<open>\<not> in_bounds grid (x, y)\<close> have "\<not> (0 \<le> y \<and> y < int (length (grid ! 0)))"
      by (auto simp: in_bounds_def cols_first [OF ne])
    with True \<open>\<not> in_bounds grid (x, y)\<close> show ?thesis
      by (simp add: is_valid_move_def free_def getitem_first [OF ne])
  qed
next
  case True
  then have x: "0 \<le> x" "nat x < length grid" and y: "0 \<le> y" "nat y < cols grid"
    by (auto simp: in_bounds_def)
  from x have ne: "grid \<noteq> []" by auto
  from x assms have rx: "length (grid ! nat x) = cols grid" "length (visited ! nat x) = cols grid"
    "nat x < length visited"
    by (auto simp: rectangular_def table_for_def)
  from x y have "x < int (length grid)" "y < int (length (grid ! 0))"
    using cols_first [OF ne] by auto
  with x y rx ne show ?thesis
    by (simp add: is_valid_move_def getitem_first getitem_nat free_def seen_def True)
qed

lemma mark_table:
  assumes "table_for grid visited" and "in_bounds grid (x, y)"
  shows "\<exists>visited'. mark visited x y = Inr visited' \<and> table_for grid visited' \<and>
           (\<forall>c. seen visited' c \<longleftrightarrow> c = (x, y) \<or> seen visited c)"
proof -
  from assms have x: "0 \<le> x" "nat x < length visited" and y: "0 \<le> y" "nat y < length (visited ! nat x)"
    by (auto simp: in_bounds_def table_for_def)
  let ?v = "visited[nat x := (visited ! nat x)[nat y := True]]"
  from x y have m: "mark visited x y = Inr ?v"
    by (simp add: mark_def getitem_nat setitem_nat)
  from assms x have t: "table_for grid ?v"
    by (auto simp: table_for_def dest!: set_update_subset_insert [THEN subsetD])
  have "seen ?v c \<longleftrightarrow> c = (x, y) \<or> seen visited c" for c
  proof (cases "nat (fst c) = nat x")
    case False
    with x y show ?thesis by (auto simp: seen_def)
  next
    case True
    with x y show ?thesis
      by (cases c) (auto simp: seen_def nth_list_update)
  qed
  with m t show ?thesis by blast
qed

lemma new_visited_replicate:
  "new_visited grid = replicate (length grid) (replicate (cols grid) False)"
  by (cases grid) (simp_all add: new_visited_def cols_def)

lemma table_new_visited: "table_for grid (new_visited grid)"
  by (simp add: table_for_def new_visited_replicate)

lemma seen_new_visited: "\<not> seen (new_visited grid) c"
  by (auto simp: seen_def new_visited_replicate)

lemma mark_start:
  assumes "in_bounds grid start"
  shows "\<exists>visited. mark (new_visited grid) (fst start) (snd start) = Inr visited \<and>
           table_for grid visited \<and> (\<forall>c. seen visited c \<longleftrightarrow> c = start)"
  using mark_table [OF table_new_visited, of grid "fst start" "snd start"] assms
  by (auto simp: seen_new_visited)

lemma reconstruct_root: "parent c = Some None \<Longrightarrow> reconstruct parent c = Some (Inr [c])"
  by (simp add: reconstruct_def walk_back.simps)

section \<open>Paths on the grid\<close>

text \<open>
  A move adds one of the four offsets to a cell. A list of cells is a sequence of legal
  moves when every cell after the first is reached from the cell before it by one offset
  and is in bounds and free; the first cell itself is not tested, as the searches mark
  the start visited without looking at its occupancy.
\<close>

definition shift :: "cell \<Rightarrow> cell \<Rightarrow> cell" where
  "shift c d = (fst c + fst d, snd c + snd d)"

definition adjacent :: "cell \<Rightarrow> cell \<Rightarrow> bool" where
  "adjacent a b = (\<exists>d \<in> set directions. b = shift a d)"

fun moves_ok :: "grid \<Rightarrow> cell list \<Rightarrow> bool" where
  "moves_ok grid (a # b # p) = (adjacent a b \<and> free grid b \<and> moves_ok grid (b # p))"
| "moves_ok grid p = True"

definition path_between :: "grid \<Rightarrow> cell \<Rightarrow> cell \<Rightarrow> cell list \<Rightarrow> bool" where
  "path_between grid start dest p =
     (p \<noteq> [] \<and> hd p = start \<and> last p = dest \<and> moves_ok grid p)"

definition reachable :: "grid \<Rightarrow> cell \<Rightarrow> cell \<Rightarrow> bool" where
  "reachable grid start dest = (\<exists>p. path_between grid start dest p)"

text \<open>The predecessor chain of a cell: the cells from the one mapped to \<open>None\<close> down to it.\<close>

inductive chain :: "parent \<Rightarrow> cell \<Rightarrow> cell list \<Rightarrow> bool" for parent :: parent where
  root: "parent c = Some None \<Longrightarrow> chain parent c [c]"
| link: "chain parent u p \<Longrightarrow> parent c = Some (Some u) \<Longrightarrow> chain parent c (p @ [c])"

lemma moves_ok_snoc:
  "p \<noteq> [] \<Longrightarrow> moves_ok grid (p @ [w]) = (moves_ok grid p \<and> adjacent (last p) w \<and> free grid w)"
  by (induction grid p rule: moves_ok.induct) auto

lemma chain_last: "chain parent c p \<Longrightarrow> p \<noteq> [] \<and> last p = c"
  by (induction rule: chain.induct) auto

lemma chain_unique: "chain parent c p \<Longrightarrow> chain parent c q \<Longrightarrow> p = q"
proof (induction arbitrary: q rule: chain.induct)
  case (root c)
  from root.prems root.hyps show ?case by (cases rule: chain.cases) auto
next
  case (link u p c)
  from link.prems link.hyps(2) link.IH show ?case by (cases rule: chain.cases) auto
qed

lemma chain_update:
  "chain parent c p \<Longrightarrow> parent w = None \<Longrightarrow> chain (parent(w \<mapsto> x)) c p"
proof (induction rule: chain.induct)
  case (root c)
  then have "(parent(w \<mapsto> x)) c = Some None" by auto
  then show ?case by (rule chain.root)
next
  case (link u p c)
  then have "(parent(w \<mapsto> x)) c = Some (Some u)" by auto
  with link show ?case by (auto intro: chain.link)
qed

lemma walk_back_chain:
  "chain parent c p \<Longrightarrow> walk_back parent (Some c) acc = Some (Inr (acc @ rev p))"
proof (induction arbitrary: acc rule: chain.induct)
  case (root c)
  then show ?case by (simp add: walk_back.simps)
next
  case (link u p c)
  have "walk_back parent (Some c) acc = walk_back parent (Some u) (acc @ [c])"
    using link.hyps(2) by (subst walk_back.simps) simp
  with link.IH [of "acc @ [c]"] show ?case by simp
qed

lemma reconstruct_chain: "chain parent c p \<Longrightarrow> reconstruct parent c = Some (Inr p)"
  by (simp add: reconstruct_def walk_back_chain)

section \<open>One iteration of the for loop on a rectangular grid\<close>

lemma visit_cases:
  assumes "rectangular grid" and "table_for grid v"
  obtains
    (skip) "\<not> (free grid (shift cur d) \<and> \<not> seen v (shift cur d))"
      "visit grid cur d (fr, v, par) = Inr (fr, v, par)"
  | (add) v' where "free grid (shift cur d)" "\<not> seen v (shift cur d)"
      "visit grid cur d (fr, v, par) = Inr (fr @ [shift cur d], v', par(shift cur d \<mapsto> Some cur))"
      "table_for grid v'" "\<forall>c. seen v' c \<longleftrightarrow> c = shift cur d \<or> seen v c"
proof (cases "free grid (shift cur d) \<and> \<not> seen v (shift cur d)")
  case False
  with assms have "visit grid cur d (fr, v, par) = Inr (fr, v, par)"
    by (auto simp: visit_def Let_def is_valid_move_table shift_def)
  with False show ?thesis by (rule skip)
next
  case True
  then have "in_bounds grid (fst cur + fst d, snd cur + snd d)"
    by (simp add: free_def shift_def)
  from mark_table [OF assms(2) this] obtain v' where
    m: "mark v (fst cur + fst d) (snd cur + snd d) = Inr v'" and t: "table_for grid v'"
    and s: "\<forall>c. seen v' c \<longleftrightarrow> c = shift cur d \<or> seen v c"
    by (auto simp: shift_def)
  from True assms m have
    "visit grid cur d (fr, v, par) = Inr (fr @ [shift cur d], v', par(shift cur d \<mapsto> Some cur))"
    by (auto simp: visit_def Let_def is_valid_move_table shift_def)
  with True t s show ?thesis by (intro add) blast+
qed

section \<open>Invariant shared by the two searches\<close>

text \<open>
  \<open>tree_ok\<close>: the dictionary has keys only at visited cells, and the chain of every
  visited cell is a sequence of legal moves from the start, without repetition, through
  visited cells. \<open>closed_ok\<close>: a visited cell that has left the frontier (and is not the
  cell being expanded, \<open>X\<close>) is not the destination and has all its free neighbours visited.
\<close>

text \<open>Facts quantified over cells are used as they are, not split into coordinates.\<close>

declare split_paired_All [simp del] split_paired_Ex [simp del]

definition tree_ok :: "grid \<Rightarrow> cell \<Rightarrow> visited \<Rightarrow> parent \<Rightarrow> bool" where
  "tree_ok grid start v par =
     ((\<forall>c. \<not> seen v c \<longrightarrow> par c = None) \<and>
      (\<forall>c. seen v c \<longrightarrow>
         (\<exists>p. chain par c p \<and> hd p = start \<and> moves_ok grid p \<and> distinct p \<and>
              (\<forall>x \<in> set p. seen v x))))"

definition closed_ok :: "grid \<Rightarrow> cell \<Rightarrow> cell set \<Rightarrow> cell list \<Rightarrow> visited \<Rightarrow> bool" where
  "closed_ok grid dest X fr v =
     (\<forall>c. seen v c \<longrightarrow> c \<notin> set fr \<longrightarrow> c \<notin> X \<longrightarrow>
        c \<noteq> dest \<and> (\<forall>w. adjacent c w \<longrightarrow> free grid w \<longrightarrow> seen v w))"

definition ginv :: "grid \<Rightarrow> cell \<Rightarrow> cell \<Rightarrow> cell set \<Rightarrow> state \<Rightarrow> bool" where
  "ginv grid start dest X st =
     (case st of (fr, v, par) \<Rightarrow>
        table_for grid v \<and> seen v start \<and> (\<forall>c \<in> set fr. seen v c) \<and>
        tree_ok grid start v par \<and> closed_ok grid dest X fr v)"

lemma tree_ok_add:
  assumes t: "tree_ok grid start v par"
    and cur: "seen v cur" and w: "\<not> seen v w" "adjacent cur w" "free grid w"
    and v': "\<forall>c. seen v' c \<longleftrightarrow> c = w \<or> seen v c"
  shows "tree_ok grid start v' (par(w \<mapsto> Some cur))"
proof -
  let ?par = "par(w \<mapsto> Some cur)"
  from t w(1) have none: "par w = None" unfolding tree_ok_def by blast
  have keys: "?par c = None" if "\<not> seen v' c" for c
    using that t v' unfolding tree_ok_def by (metis fun_upd_apply)
  have old: "\<exists>p. chain ?par c p \<and> hd p = start \<and> moves_ok grid p \<and> distinct p \<and>
      (\<forall>x \<in> set p. seen v' x)" if "seen v c" for c
  proof -
    from t that obtain p where "chain par c p" "hd p = start" "moves_ok grid p" "distinct p"
      "\<forall>x \<in> set p. seen v x" unfolding tree_ok_def by blast
    with chain_update [OF this(1) none, of "Some cur"] v' show ?thesis by blast
  qed
  have new: "\<exists>p. chain ?par w p \<and> hd p = start \<and> moves_ok grid p \<and> distinct p \<and>
      (\<forall>x \<in> set p. seen v' x)"
  proof -
    from t cur obtain p where p: "chain par cur p" "hd p = start" "moves_ok grid p" "distinct p"
      "\<forall>x \<in> set p. seen v x" unfolding tree_ok_def by blast
    from chain_last [OF p(1)] have l: "p \<noteq> []" "last p = cur" by auto
    have "chain ?par cur p" by (rule chain_update [OF p(1) none])
    then have "chain ?par w (p @ [w])" by (rule chain.link) simp
    moreover from l p(2) have "hd (p @ [w]) = start" by simp
    moreover from l p(3) w have "moves_ok grid (p @ [w])" by (simp add: moves_ok_snoc)
    moreover from p(4,5) w(1) have "distinct (p @ [w])" by auto
    moreover from p(5) v' have "\<forall>x \<in> set (p @ [w]). seen v' x" by auto
    ultimately show ?thesis by blast
  qed
  show ?thesis
    unfolding tree_ok_def
  proof (intro conjI allI impI)
    fix c assume "\<not> seen v' c"
    then show "?par c = None" by (rule keys)
  next
    fix c assume "seen v' c"
    with v' have "c = w \<or> seen v c" by blast
    with old new show "\<exists>p. chain ?par c p \<and> hd p = start \<and> moves_ok grid p \<and> distinct p \<and>
      (\<forall>x \<in> set p. seen v' x)" by blast
  qed
qed

lemma closed_ok_add:
  assumes "closed_ok grid dest X fr v" and "\<forall>c. seen v' c \<longleftrightarrow> c = w \<or> seen v c"
  shows "closed_ok grid dest X (fr @ [w]) v'"
  using assms unfolding closed_ok_def by auto

lemma visit_ginv:
  assumes r: "rectangular grid" and d: "d \<in> set directions"
    and i: "ginv grid start dest X (fr, v, par)" and cur: "seen v cur"
  shows "\<exists>fr' v' par'. visit grid cur d (fr, v, par) = Inr (fr', v', par') \<and>
           ginv grid start dest X (fr', v', par') \<and> (\<forall>c. seen v c \<longrightarrow> seen v' c) \<and>
           (free grid (shift cur d) \<longrightarrow> seen v' (shift cur d))"
proof -
  from i have t: "table_for grid v" by (simp add: ginv_def)
  from r t show ?thesis
  proof (cases rule: visit_cases [where cur = cur and d = d and fr = fr and par = par])
    case skip
    with i show ?thesis by auto
  next
    case (add v')
    from d have adj: "adjacent cur (shift cur d)" by (auto simp: adjacent_def)
    from i have "tree_ok grid start v par" by (simp add: ginv_def)
    from tree_ok_add [OF this cur add(2) adj add(1) add(5)]
    have 1: "tree_ok grid start v' (par(shift cur d \<mapsto> Some cur))" .
    from i have "closed_ok grid dest X fr v" by (simp add: ginv_def)
    from closed_ok_add [OF this add(5)]
    have 2: "closed_ok grid dest X (fr @ [shift cur d]) v'" .
    from i add(4,5) 1 2
    have "ginv grid start dest X (fr @ [shift cur d], v', par(shift cur d \<mapsto> Some cur))"
      by (auto simp: ginv_def)
    with add(3,5) show ?thesis by auto
  qed
qed

lemma explore_ginv:
  assumes r: "rectangular grid"
  shows "set ds \<subseteq> set directions \<Longrightarrow> ginv grid start dest X (fr, v, par) \<Longrightarrow> seen v cur \<Longrightarrow>
         \<exists>fr' v' par'. explore grid cur ds (fr, v, par) = Inr (fr', v', par') \<and>
           ginv grid start dest X (fr', v', par') \<and> (\<forall>c. seen v c \<longrightarrow> seen v' c) \<and>
           (\<forall>d \<in> set ds. free grid (shift cur d) \<longrightarrow> seen v' (shift cur d))"
proof (induction ds arbitrary: fr v par)
  case Nil
  then show ?case by simp
next
  case (Cons d ds)
  from Cons.prems(1) have d: "d \<in> set directions" and ds: "set ds \<subseteq> set directions" by auto
  from visit_ginv [OF r d Cons.prems(2,3)] obtain f1 v1 p1 where
    1: "visit grid cur d (fr, v, par) = Inr (f1, v1, p1)" "ginv grid start dest X (f1, v1, p1)"
      "\<forall>c. seen v c \<longrightarrow> seen v1 c" "free grid (shift cur d) \<longrightarrow> seen v1 (shift cur d)"
    by blast
  from 1(3) Cons.prems(3) have "seen v1 cur" by blast
  from Cons.IH [OF ds 1(2) this] obtain f2 v2 p2 where
    2: "explore grid cur ds (f1, v1, p1) = Inr (f2, v2, p2)" "ginv grid start dest X (f2, v2, p2)"
      "\<forall>c. seen v1 c \<longrightarrow> seen v2 c" "\<forall>d \<in> set ds. free grid (shift cur d) \<longrightarrow> seen v2 (shift cur d)"
    by blast
  from 1(1) 2(1) have "explore grid cur (d # ds) (fr, v, par) = Inr (f2, v2, p2)" by simp
  moreover from 1(3) 2(3) have "\<forall>c. seen v c \<longrightarrow> seen v2 c" by blast
  moreover from 1(4) 2(3,4) have "\<forall>e \<in> set (d # ds). free grid (shift cur e) \<longrightarrow> seen v2 (shift cur e)"
    by auto
  ultimately show ?case using 2(2) by blast
qed

text \<open>Expanding a cell taken from the frontier restores the invariant of the loop.\<close>

lemma expand_ginv:
  assumes r: "rectangular grid" and i: "ginv grid start dest {} (fr, v, par)"
    and fr: "set fr = insert cur (set rest)" and nd: "cur \<noteq> dest"
  shows "\<exists>st'. explore grid cur directions (rest, v, par) = Inr st' \<and> ginv grid start dest {} st'"
proof -
  from i fr have cur: "seen v cur" by (auto simp: ginv_def)
  from i fr have "ginv grid start dest {cur} (rest, v, par)"
    by (auto simp: ginv_def closed_ok_def)
  from explore_ginv [OF r subset_refl this cur] obtain fr' v' par' where
    e: "explore grid cur directions (rest, v, par) = Inr (fr', v', par')"
    and g: "ginv grid start dest {cur} (fr', v', par')"
    and n: "\<forall>d \<in> set directions. free grid (shift cur d) \<longrightarrow> seen v' (shift cur d)"
    by blast
  from n have "\<forall>w. adjacent cur w \<longrightarrow> free grid w \<longrightarrow> seen v' w"
    by (auto simp: adjacent_def)
  with g nd have "ginv grid start dest {} (fr', v', par')"
    by (auto simp: ginv_def closed_ok_def)
  with e show ?thesis by blast
qed

lemma moves_ok_closed:
  assumes c: "\<forall>c. seen v c \<longrightarrow> (\<forall>w. adjacent c w \<longrightarrow> free grid w \<longrightarrow> seen v w)"
  shows "moves_ok grid p \<Longrightarrow> p \<noteq> [] \<Longrightarrow> seen v (hd p) \<Longrightarrow> \<forall>x \<in> set p. seen v x"
proof (induction p)
  case Nil
  then show ?case by simp
next
  case (Cons a p)
  from Cons.prems have a: "seen v a" by simp
  show ?case
  proof (cases p)
    case Nil
    with a show ?thesis by simp
  next
    case q: (Cons b q)
    with Cons.prems have m: "adjacent a b" "free grid b" "moves_ok grid p" by simp_all
    from c a m(1,2) have "seen v b" by blast
    with Cons.IH [OF m(3)] q have "\<forall>x \<in> set p. seen v x" by simp
    with a show ?thesis by simp
  qed
qed

lemma ginv_empty_frontier:
  assumes "ginv grid start dest {} ([], v, par)"
  shows "\<not> reachable grid start dest"
proof
  assume "reachable grid start dest"
  then obtain p where p: "p \<noteq> []" "hd p = start" "last p = dest" "moves_ok grid p"
    by (auto simp: reachable_def path_between_def)
  from assms have c: "\<forall>c. seen v c \<longrightarrow> c \<noteq> dest \<and> (\<forall>w. adjacent c w \<longrightarrow> free grid w \<longrightarrow> seen v w)"
    and s: "seen v start" by (auto simp: ginv_def closed_ok_def)
  from c have "\<forall>c. seen v c \<longrightarrow> (\<forall>w. adjacent c w \<longrightarrow> free grid w \<longrightarrow> seen v w)" by blast
  from moves_ok_closed [OF this p(4) p(1)] s p(2) have "\<forall>x \<in> set p. seen v x" by simp
  with p(1,3) have "seen v dest" using last_in_set by blast
  with c show False by blast
qed

lemma ginv_found:
  assumes "ginv grid start dest X (fr, v, par)" and "dest \<in> set fr"
  shows "\<exists>p. reconstruct par dest = Some (Inr p) \<and> chain par dest p \<and>
           path_between grid start dest p \<and> distinct p"
proof -
  from assms obtain p where p: "chain par dest p" "hd p = start" "moves_ok grid p" "distinct p"
    by (auto simp: ginv_def tree_ok_def)
  from chain_last [OF p(1)] p have "path_between grid start dest p"
    by (simp add: path_between_def)
  with reconstruct_chain [OF p(1)] p show ?thesis by blast
qed

lemma ginv_init:
  assumes "table_for grid v" and "\<forall>c. seen v c \<longleftrightarrow> c = start"
  shows "ginv grid start dest {} ([start], v, [start \<mapsto> None])"
proof -
  have "chain [start \<mapsto> None] start [start]" by (rule chain.root) simp
  with assms show ?thesis
    by (auto simp: ginv_def tree_ok_def closed_ok_def)
qed

section \<open>What the two loops return\<close>

text \<open>
  The outcome of a search on a rectangular grid: either the empty path, and then the
  destination cannot be reached, or a repetition-free sequence of legal moves from the
  start to the destination.
\<close>

definition search_ok :: "grid \<Rightarrow> cell \<Rightarrow> cell \<Rightarrow> (error + cell list) option \<Rightarrow> bool" where
  "search_ok grid start dest r =
     ((r = Some (Inr []) \<and> \<not> reachable grid start dest) \<or>
      (\<exists>p. r = Some (Inr p) \<and> path_between grid start dest p \<and> distinct p))"

lemma search_ok_returns: "search_ok grid start dest r \<Longrightarrow> \<exists>p. r = Some (Inr p)"
  by (auto simp: search_ok_def)

lemma search_ok_path:
  "search_ok grid start dest (Some (Inr p)) \<Longrightarrow> p \<noteq> [] \<Longrightarrow>
   path_between grid start dest p \<and> distinct p"
  by (auto simp: search_ok_def)

lemma search_ok_reachable:
  "search_ok grid start dest (Some (Inr p)) \<Longrightarrow> p \<noteq> [] \<longleftrightarrow> reachable grid start dest"
  by (auto simp: search_ok_def reachable_def path_between_def)

lemma bfs_loop_ginv:
  "rectangular grid \<Longrightarrow> ginv grid start dest {} st \<Longrightarrow>
   search_ok grid start dest (bfs_loop grid dest st)"
proof (induction grid dest st rule: bfs_loop.induct)
  case (1 grid dest queue visited parent)
  show ?case
  proof (cases queue)
    case Nil
    with ginv_empty_frontier [of grid start dest visited parent] "1.prems"
    show ?thesis by (simp add: search_ok_def)
  next
    case (Cons current rest)
    show ?thesis
    proof (cases "current = dest")
      case True
      with Cons ginv_found [OF "1.prems"(2), of ] obtain p where
        "reconstruct parent dest = Some (Inr p)" "path_between grid start dest p" "distinct p"
        by auto
      with Cons True show ?thesis by (simp add: search_ok_def)
    next
      case False
      from Cons have "set queue = insert current (set rest)" by simp
      from expand_ginv [OF "1.prems"(1) "1.prems"(2) this False] obtain st' where
        e: "explore grid current directions (rest, visited, parent) = Inr st'"
        and g: "ginv grid start dest {} st'" by blast
      from "1.IH" [OF Cons False e "1.prems"(1) g] Cons False e show ?thesis by simp
    qed
  qed
qed

lemma dfs_loop_ginv:
  "rectangular grid \<Longrightarrow> ginv grid start dest {} st \<Longrightarrow>
   search_ok grid start dest (dfs_loop grid dest st)"
proof (induction grid dest st rule: dfs_loop.induct)
  case (1 grid dest stack visited parent)
  show ?case
  proof (cases "stack = []")
    case True
    with ginv_empty_frontier [of grid start dest visited parent] "1.prems"
    show ?thesis by (simp add: search_ok_def)
  next
    case ne: False
    show ?thesis
    proof (cases "last stack = dest")
      case True
      with ne have "dest \<in> set stack" using last_in_set by blast
      with ginv_found [OF "1.prems"(2)] obtain p where
        "reconstruct parent dest = Some (Inr p)" "path_between grid start dest p" "distinct p"
        by blast
      with ne True show ?thesis by (simp add: search_ok_def)
    next
      case False
      from ne have "set stack = insert (last stack) (set (butlast stack))"
        by (metis append_butlast_last_id insert_is_Un list.simps(15) set_append sup_commute
            empty_set)
      from expand_ginv [OF "1.prems"(1) "1.prems"(2) this False] obtain st' where
        e: "explore grid (last stack) directions (butlast stack, visited, parent) = Inr st'"
        and g: "ginv grid start dest {} st'" by blast
      from "1.IH" [OF ne False e "1.prems"(1) g] ne False e show ?thesis by simp
    qed
  qed
qed

lemma bfs_search_ok:
  assumes "rectangular grid" and "in_bounds grid start"
  shows "search_ok grid start dest (bfs start dest grid)"
proof -
  from mark_start [OF assms(2)] obtain v where
    v: "mark (new_visited grid) (fst start) (snd start) = Inr v" "table_for grid v"
      "\<forall>c. seen v c \<longleftrightarrow> c = start" by blast
  from bfs_loop_ginv [OF assms(1) ginv_init [OF v(2,3)]] v(1) show ?thesis
    by (simp add: bfs_def)
qed

lemma dfs_search_ok:
  assumes "rectangular grid" and "in_bounds grid start"
  shows "search_ok grid start dest (dfs start dest grid)"
proof -
  from mark_start [OF assms(2)] obtain v where
    v: "mark (new_visited grid) (fst start) (snd start) = Inr v" "table_for grid v"
      "\<forall>c. seen v c \<longleftrightarrow> c = start" by blast
  from dfs_loop_ginv [OF assms(1) ginv_init [OF v(2,3)]] v(1) show ?thesis
    by (simp add: dfs_def)
qed

lemma either_search_ok:
  assumes "rectangular grid" and "in_bounds grid start"
    and "bfs start dest grid = Some (Inr p) \<or> dfs start dest grid = Some (Inr p)"
  shows "search_ok grid start dest (Some (Inr p))"
  using assms bfs_search_ok [OF assms(1,2), of dest] dfs_search_ok [OF assms(1,2), of dest]
  by auto

lemma moves_ok_nth:
  "moves_ok grid p \<Longrightarrow> Suc i < length p \<Longrightarrow> adjacent (p ! i) (p ! Suc i) \<and> free grid (p ! Suc i)"
proof (induction grid p arbitrary: i rule: moves_ok.induct)
  case (1 grid a b p)
  then show ?case by (cases i) auto
qed auto

lemma moves_ok_tl: "moves_ok grid p \<Longrightarrow> \<forall>c \<in> set (tl p). free grid c"
  by (induction grid p rule: moves_ok.induct) auto

lemma found_path:
  assumes "rectangular grid" and "in_bounds grid start"
    and "bfs start dest grid = Some (Inr p) \<or> dfs start dest grid = Some (Inr p)"
    and "p \<noteq> []"
  shows "path_between grid start dest p \<and> distinct p"
  using search_ok_path [OF either_search_ok [OF assms(1,2,3)] assms(4)] .

lemma reachable_other_free:
  assumes "reachable grid start dest" and "dest \<noteq> start"
  shows "free grid dest"
proof -
  from assms(1) obtain p where p: "p \<noteq> []" "hd p = start" "last p = dest" "moves_ok grid p"
    by (auto simp: reachable_def path_between_def)
  from p(1,3) have "dest \<in> set p" using last_in_set by blast
  moreover from p(1) have "p = hd p # tl p" by simp
  ultimately have "dest \<in> set (tl p)" using assms(2) p(2) by (metis set_ConsD)
  with moves_ok_tl [OF p(4)] show ?thesis by blast
qed

lemma reachable_neighbour:
  assumes "adjacent start dest" and "free grid dest"
  shows "reachable grid start dest"
proof -
  from assms have "path_between grid start dest [start, dest]"
    by (simp add: path_between_def)
  then show ?thesis unfolding reachable_def by blast
qed

section \<open>Levels of the breadth-first search\<close>

text \<open>
  The proof that \<open>bfs\<close> finds a shortest path attaches to every visited cell its depth,
  the number of moves of its predecessor chain. \<open>depth_ok\<close> ties the depth to the
  dictionary; \<open>level_ok\<close> says that a free neighbour of an expanded cell is visited and
  at most one level deeper. While the cell \<open>cur\<close> is being expanded (\<open>binv_open\<close>) and
  between two iterations of the loop (\<open>binv\<close>) the queue is ordered by depth and no
  visited cell is more than one level below the cell at its head.
\<close>

definition depth_ok :: "visited \<Rightarrow> parent \<Rightarrow> (cell \<Rightarrow> nat) \<Rightarrow> bool" where
  "depth_ok v par dep = (\<forall>c. seen v c \<longrightarrow> (\<exists>p. chain par c p \<and> length p = Suc (dep c)))"

definition level_ok :: "grid \<Rightarrow> cell set \<Rightarrow> cell list \<Rightarrow> visited \<Rightarrow> (cell \<Rightarrow> nat) \<Rightarrow> bool" where
  "level_ok grid X fr v dep =
     (\<forall>c. seen v c \<longrightarrow> c \<notin> set fr \<longrightarrow> c \<notin> X \<longrightarrow>
        (\<forall>w. adjacent c w \<longrightarrow> free grid w \<longrightarrow> seen v w \<and> dep w \<le> Suc (dep c)))"

definition binv_open ::
  "grid \<Rightarrow> cell \<Rightarrow> cell \<Rightarrow> cell list \<Rightarrow> visited \<Rightarrow> parent \<Rightarrow> (cell \<Rightarrow> nat) \<Rightarrow> bool" where
  "binv_open grid start cur fr v par dep =
     (depth_ok v par dep \<and> dep start = 0 \<and> sorted (map dep (cur # fr)) \<and>
      (\<forall>c. seen v c \<longrightarrow> dep c \<le> Suc (dep cur)) \<and> level_ok grid {cur} fr v dep)"

definition binv ::
  "grid \<Rightarrow> cell \<Rightarrow> cell list \<Rightarrow> visited \<Rightarrow> parent \<Rightarrow> (cell \<Rightarrow> nat) \<Rightarrow> bool" where
  "binv grid start q v par dep =
     (depth_ok v par dep \<and> dep start = 0 \<and> sorted (map dep q) \<and>
      (q \<noteq> [] \<longrightarrow> (\<forall>c. seen v c \<longrightarrow> dep c \<le> Suc (dep (hd q)))) \<and> level_ok grid {} q v dep)"

lemma binv_open_add:
  assumes b: "binv_open grid start cur fr v par dep"
    and g: "seen v start" "seen v cur" "\<forall>c \<in> set fr. seen v c" "par w = None"
    and w: "\<not> seen v w" and v': "\<forall>c. seen v' c \<longleftrightarrow> c = w \<or> seen v c"
  shows "binv_open grid start cur (fr @ [w]) v' (par(w \<mapsto> Some cur)) (dep(w := Suc (dep cur)))"
proof -
  let ?par = "par(w \<mapsto> Some cur)" and ?dep = "dep(w := Suc (dep cur))"
  from b have d: "depth_ok v par dep" and z: "dep start = 0"
    and s: "sorted (map dep (cur # fr))" and u: "\<forall>c. seen v c \<longrightarrow> dep c \<le> Suc (dep cur)"
    and l: "level_ok grid {cur} fr v dep"
    by (simp_all add: binv_open_def)
  have same: "?dep c = dep c" if "seen v c" for c using that w by auto
  have 1: "depth_ok v' ?par ?dep"
    unfolding depth_ok_def
  proof (intro allI impI)
    fix c assume "seen v' c"
    with v' have "c = w \<or> seen v c" by blast
    then show "\<exists>p. chain ?par c p \<and> length p = Suc (?dep c)"
    proof
      assume c: "c = w"
      from d g(2) obtain p where p: "chain par cur p" "length p = Suc (dep cur)"
        unfolding depth_ok_def by blast
      have "chain ?par cur p" by (rule chain_update [OF p(1) g(4)])
      then have "chain ?par w (p @ [w])" by (rule chain.link) simp
      with p(2) c show ?thesis by auto
    next
      assume c: "seen v c"
      with d obtain p where p: "chain par c p" "length p = Suc (dep c)"
        unfolding depth_ok_def by blast
      from chain_update [OF p(1) g(4), of "Some cur"] p(2) same [OF c] show ?thesis by auto
    qed
  qed
  from same [OF g(1)] z have 2: "?dep start = 0" by (simp del: fun_upd_apply)
  have m: "map ?dep (cur # fr) = map dep (cur # fr)"
  proof (rule map_cong [OF refl])
    fix c assume "c \<in> set (cur # fr)"
    with g(2,3) have "seen v c" by auto
    then show "?dep c = dep c" by (rule same)
  qed
  have "map ?dep (cur # fr @ [w]) = map ?dep (cur # fr) @ [Suc (dep cur)]" by simp
  with m have e: "map ?dep (cur # fr @ [w]) = map dep (cur # fr) @ [Suc (dep cur)]" by simp
  have "\<forall>x \<in> set (map dep (cur # fr)). x \<le> Suc (dep cur)"
    using g(2,3) u by auto
  with s have S: "sorted (map dep (cur # fr) @ [Suc (dep cur)])"
    by (simp only: sorted_append) simp
  have 3: "sorted (map ?dep (cur # fr @ [w]))"
    unfolding e by (rule S)
  have 4: "\<forall>c. seen v' c \<longrightarrow> ?dep c \<le> Suc (?dep cur)"
    using u v' same [OF g(2)] by auto
  have 5: "level_ok grid {cur} (fr @ [w]) v' ?dep"
    unfolding level_ok_def
  proof (intro allI impI)
    fix c x
    assume c: "seen v' c" "c \<notin> set (fr @ [w])" "c \<notin> {cur}" and x: "adjacent c x" "free grid x"
    from c v' have c': "seen v c" "c \<notin> set fr" "c \<notin> {cur}" by auto
    with l x have sx: "seen v x" and dx: "dep x \<le> Suc (dep c)"
      unfolding level_ok_def by blast+
    from sx v' have "seen v' x" by blast
    with dx same [OF sx] same [OF c'(1)] show "seen v' x \<and> ?dep x \<le> Suc (?dep c)" by simp
  qed
  from 1 2 3 4 5 show ?thesis by (simp add: binv_open_def del: fun_upd_apply)
qed

lemma visit_binv:
  assumes r: "rectangular grid" and d: "d \<in> set directions"
    and i: "ginv grid start dest X (fr, v, par)" and cur: "seen v cur"
    and b: "binv_open grid start cur fr v par dep"
  shows "\<exists>fr' v' par' dep'. visit grid cur d (fr, v, par) = Inr (fr', v', par') \<and>
           binv_open grid start cur fr' v' par' dep'"
proof -
  from i have t: "table_for grid v" by (simp add: ginv_def)
  from r t show ?thesis
  proof (cases rule: visit_cases [where cur = cur and d = d and fr = fr and par = par])
    case skip
    with b show ?thesis by blast
  next
    case (add v')
    from i add(2) have g: "seen v start" "\<forall>c \<in> set fr. seen v c" "par (shift cur d) = None"
      unfolding ginv_def tree_ok_def by auto
    from binv_open_add [OF b g(1) cur g(2,3) add(2) add(5)] add(3) show ?thesis by blast
  qed
qed

lemma explore_binv:
  assumes r: "rectangular grid"
  shows "set ds \<subseteq> set directions \<Longrightarrow> ginv grid start dest X (fr, v, par) \<Longrightarrow> seen v cur \<Longrightarrow>
         binv_open grid start cur fr v par dep \<Longrightarrow>
         \<exists>fr' v' par' dep'. explore grid cur ds (fr, v, par) = Inr (fr', v', par') \<and>
           binv_open grid start cur fr' v' par' dep'"
proof (induction ds arbitrary: fr v par dep)
  case Nil
  then show ?case by auto
next
  case (Cons d ds)
  from Cons.prems(1) have d: "d \<in> set directions" and ds: "set ds \<subseteq> set directions" by auto
  from visit_ginv [OF r d Cons.prems(2,3)] obtain f1 v1 p1 where
    1: "visit grid cur d (fr, v, par) = Inr (f1, v1, p1)" "ginv grid start dest X (f1, v1, p1)"
      "\<forall>c. seen v c \<longrightarrow> seen v1 c"
    by blast
  from visit_binv [OF r d Cons.prems(2,3,4)] 1(1) obtain dep1 where
    2: "binv_open grid start cur f1 v1 p1 dep1" by auto
  from 1(3) Cons.prems(3) have "seen v1 cur" by blast
  from Cons.IH [OF ds 1(2) this 2] 1(1) show ?case by auto
qed

lemma expand_binv:
  assumes r: "rectangular grid" and i: "ginv grid start dest {} (cur # rest, v, par)"
    and b: "binv grid start (cur # rest) v par dep" and nd: "cur \<noteq> dest"
  shows "\<exists>q' v' par' dep'. explore grid cur directions (rest, v, par) = Inr (q', v', par') \<and>
           ginv grid start dest {} (q', v', par') \<and> binv grid start q' v' par' dep'"
proof -
  from i have cur: "seen v cur" by (auto simp: ginv_def)
  from i have o: "ginv grid start dest {cur} (rest, v, par)"
    by (auto simp: ginv_def closed_ok_def)
  from b have bo: "binv_open grid start cur rest v par dep"
    by (auto simp: binv_def binv_open_def level_ok_def)
  have "set (cur # rest) = insert cur (set rest)" by simp
  from expand_ginv [OF r i this nd] obtain q' v' par' where
    e: "explore grid cur directions (rest, v, par) = Inr (q', v', par')"
    and g: "ginv grid start dest {} (q', v', par')" by (metis prod_cases3)
  from explore_binv [OF r subset_refl o cur bo] e obtain dep' where
    b': "binv_open grid start cur q' v' par' dep'" by auto
  from explore_ginv [OF r subset_refl o cur] e have cur': "seen v' cur" using cur by auto
  from b' have d: "depth_ok v' par' dep'" and z: "dep' start = 0"
    and s: "sorted (map dep' (cur # q'))" and u: "\<forall>c. seen v' c \<longrightarrow> dep' c \<le> Suc (dep' cur)"
    and l: "level_ok grid {cur} q' v' dep'"
    by (simp_all add: binv_open_def)
  from s have 3: "sorted (map dep' q')" by simp
  have 4: "\<forall>c. seen v' c \<longrightarrow> dep' c \<le> Suc (dep' (hd q'))" if "q' \<noteq> []"
  proof -
    from that s have "dep' cur \<le> dep' (hd q')" by (cases q') auto
    with u show ?thesis by (meson Suc_le_mono le_trans)
  qed
  from g have c: "closed_ok grid dest {} q' v'" by (simp add: ginv_def)
  have 5: "level_ok grid {} q' v' dep'"
    unfolding level_ok_def
  proof (intro allI impI)
    fix c x
    assume a: "seen v' c" "c \<notin> set q'" "c \<notin> {}" "adjacent c x" "free grid x"
    show "seen v' x \<and> dep' x \<le> Suc (dep' c)"
    proof (cases "c = cur")
      case True
      from c a(1,2,4,5) have "seen v' x" unfolding closed_ok_def by blast
      with u True show ?thesis by blast
    next
      case False
      with l a show ?thesis unfolding level_ok_def by blast
    qed
  qed
  from d z 3 4 5 have "binv grid start q' v' par' dep'" by (simp add: binv_def)
  with e g show ?thesis by blast
qed

text \<open>Along any sequence of legal moves from the start, either its last cell is visited
  at a depth not above the number of moves, or a cell still in the queue is strictly
  shallower than that number.\<close>

lemma level_bound:
  assumes s: "seen v start" and z: "dep start = 0" and l: "level_ok grid {} q v dep"
  shows "r \<noteq> [] \<Longrightarrow> hd r = start \<Longrightarrow> moves_ok grid r \<Longrightarrow>
         (seen v (last r) \<and> Suc (dep (last r)) \<le> length r) \<or>
         (\<exists>c \<in> set q. Suc (dep c) < length r)"
proof (induction r rule: rev_induct)
  case Nil
  then show ?case by simp
next
  case (snoc w r)
  show ?case
  proof (cases "r = []")
    case True
    with snoc.prems s z show ?thesis by simp
  next
    case False
    with snoc.prems have m: "hd r = start" "moves_ok grid r" "adjacent (last r) w" "free grid w"
      by (simp_all add: moves_ok_snoc)
    from snoc.IH [OF False m(1,2)] show ?thesis
    proof
      assume a: "seen v (last r) \<and> Suc (dep (last r)) \<le> length r"
      show ?thesis
      proof (cases "last r \<in> set q")
        case True
        with a have "\<exists>c \<in> set q. Suc (dep c) < length (r @ [w])"
          by (intro bexI [of _ "last r"]) simp_all
        then show ?thesis by blast
      next
        case False
        with l a m(3,4) have "seen v w \<and> dep w \<le> Suc (dep (last r))"
          unfolding level_ok_def by blast
        with a show ?thesis by auto
      qed
    next
      assume "\<exists>c \<in> set q. Suc (dep c) < length r"
      then obtain c where "c \<in> set q" "Suc (dep c) < length r" by blast
      then have "\<exists>c \<in> set q. Suc (dep c) < length (r @ [w])"
        by (intro bexI [of _ c]) simp_all
      then show ?thesis by blast
    qed
  qed
qed

lemma binv_head_shortest:
  assumes i: "ginv grid start dest {} (dest # rest, v, par)"
    and b: "binv grid start (dest # rest) v par dep"
    and c: "chain par dest p" and r: "path_between grid start dest r"
  shows "length p \<le> length r"
proof -
  from i have s: "seen v start" "seen v dest" by (auto simp: ginv_def)
  from b have d: "depth_ok v par dep" and z: "dep start = 0"
    and o: "sorted (map dep (dest # rest))" and l: "level_ok grid {} (dest # rest) v dep"
    by (simp_all add: binv_def)
  from d s(2) obtain p' where "chain par dest p'" "length p' = Suc (dep dest)"
    unfolding depth_ok_def by blast
  with chain_unique [OF c] have len: "length p = Suc (dep dest)" by auto
  from r have r': "r \<noteq> []" "hd r = start" "last r = dest" "moves_ok grid r"
    by (simp_all add: path_between_def)
  from level_bound [OF s(1) z l r'(1,2,4)] r'(3)
  have "Suc (dep dest) \<le> length r \<or> (\<exists>c \<in> set (dest # rest). Suc (dep c) < length r)"
    by auto
  then show ?thesis
  proof
    assume "Suc (dep dest) \<le> length r"
    with len show ?thesis by simp
  next
    assume "\<exists>c \<in> set (dest # rest). Suc (dep c) < length r"
    then obtain c where c: "c \<in> set (dest # rest)" "Suc (dep c) < length r" by blast
    from o c(1) have "dep dest \<le> dep c" by auto
    with c(2) len show ?thesis by simp
  qed
qed

lemma bfs_loop_shortest:
  "rectangular grid \<Longrightarrow> ginv grid start dest {} st \<Longrightarrow>
   binv grid start (fst st) (fst (snd st)) (snd (snd st)) dep \<Longrightarrow>
   bfs_loop grid dest st = Some (Inr p) \<Longrightarrow> p \<noteq> [] \<Longrightarrow> path_between grid start dest r \<Longrightarrow>
   length p \<le> length r"
proof (induction grid dest st arbitrary: dep rule: bfs_loop.induct)
  case (1 grid dest queue visited parent)
  show ?case
  proof (cases queue)
    case Nil
    with "1.prems"(4,5) show ?thesis by simp
  next
    case (Cons current rest)
    show ?thesis
    proof (cases "current = dest")
      case True
      with Cons "1.prems"(2) have i: "ginv grid start dest {} (dest # rest, visited, parent)"
        by simp
      from True Cons "1.prems"(3) have b: "binv grid start (dest # rest) visited parent dep"
        by simp
      from ginv_found [OF i] obtain p' where
        p': "reconstruct parent dest = Some (Inr p')" "chain parent dest p'" by auto
      with True Cons "1.prems"(4) have "p = p'" by simp
      with binv_head_shortest [OF i b p'(2) "1.prems"(6)] show ?thesis by simp
    next
      case False
      from Cons "1.prems"(2) have i: "ginv grid start dest {} (current # rest, visited, parent)"
        by simp
      from Cons "1.prems"(3) have b: "binv grid start (current # rest) visited parent dep"
        by simp
      from expand_binv [OF "1.prems"(1) i b False] obtain q' v' par' dep' where
        e: "explore grid current directions (rest, visited, parent) = Inr (q', v', par')"
        and g: "ginv grid start dest {} (q', v', par')"
        and b': "binv grid start q' v' par' dep'" by blast
      from Cons False e "1.prems"(4) have "bfs_loop grid dest (q', v', par') = Some (Inr p)"
        by simp
      from "1.IH" [OF Cons False e "1.prems"(1) g _ this "1.prems"(5,6), of dep'] b'
      show ?thesis by simp
    qed
  qed
qed

lemma binv_init:
  assumes "\<forall>c. seen v c \<longleftrightarrow> c = start"
  shows "binv grid start [start] v [start \<mapsto> None] (\<lambda>c. 0)"
proof -
  have "chain [start \<mapsto> None] start [start]" by (rule chain.root) simp
  then have "\<exists>p. chain [start \<mapsto> None] start p \<and> length p = Suc 0" by force
  with assms show ?thesis
    by (auto simp: binv_def depth_ok_def level_ok_def)
qed

lemma bfs_minimal:
  assumes "rectangular grid" and "in_bounds grid start"
    and "bfs start dest grid = Some (Inr p)" and "p \<noteq> []"
    and "path_between grid start dest r"
  shows "length p \<le> length r"
proof -
  from mark_start [OF assms(2)] obtain v where
    v: "mark (new_visited grid) (fst start) (snd start) = Inr v" "table_for grid v"
      "\<forall>c. seen v c \<longleftrightarrow> c = start" by blast
  from v(1) assms(3) have "bfs_loop grid dest ([start], v, [start \<mapsto> None]) = Some (Inr p)"
    by (simp add: bfs_def)
  from bfs_loop_shortest [OF assms(1) ginv_init [OF v(2,3)] _ this assms(4,5), of "\<lambda>c. 0"]
    binv_init [OF v(3)]
  show ?thesis by simp
qed

section \<open>Grids without obstacles\<close>

definition no_obstacles :: "grid \<Rightarrow> bool" where
  "no_obstacles grid = (\<forall>row \<in> set grid. \<forall>occ \<in> set row. occ = 0)"

definition manhattan :: "cell \<Rightarrow> cell \<Rightarrow> nat" where
  "manhattan a b = nat (\<bar>fst a - fst b\<bar> + \<bar>snd a - snd b\<bar>)"

lemma no_obstacles_free:
  assumes "rectangular grid" and "no_obstacles grid" and "in_bounds grid c"
  shows "free grid c"
proof -
  from assms(3) have x: "nat (fst c) < length grid" and y: "nat (snd c) < cols grid"
    by (auto simp: in_bounds_def)
  from x have r: "grid ! nat (fst c) \<in> set grid" by simp
  with assms(1) y have "nat (snd c) < length (grid ! nat (fst c))"
    by (simp add: rectangular_def)
  then have "grid ! nat (fst c) ! nat (snd c) \<in> set (grid ! nat (fst c))" by simp
  with assms(2) r have "grid ! nat (fst c) ! nat (snd c) = 0"
    unfolding no_obstacles_def by blast
  with assms(3) show ?thesis by (simp add: free_def)
qed

lemma adjacent_manhattan: "adjacent a b \<Longrightarrow> manhattan a c \<le> Suc (manhattan b c)"
  by (auto simp: adjacent_def directions_def shift_def manhattan_def)

lemma moves_ok_Cons:
  "r \<noteq> [] \<Longrightarrow> moves_ok grid (a # r) = (adjacent a (hd r) \<and> free grid (hd r) \<and> moves_ok grid r)"
  by (cases r) simp_all

lemma moves_manhattan:
  "moves_ok grid r \<Longrightarrow> r \<noteq> [] \<Longrightarrow> Suc (manhattan (hd r) (last r)) \<le> length r"
proof (induction r)
  case Nil
  then show ?case by simp
next
  case (Cons a r)
  show ?case
  proof (cases "r = []")
    case True
    then show ?thesis by (simp add: manhattan_def)
  next
    case False
    with Cons.prems have m: "adjacent a (hd r)" "moves_ok grid r" by (simp_all add: moves_ok_Cons)
    from Cons.IH [OF m(2) False] adjacent_manhattan [OF m(1), of "last r"] False
    show ?thesis by simp
  qed
qed

lemma step_toward:
  assumes "in_bounds grid a" and "in_bounds grid b" and "a \<noteq> b"
  shows "\<exists>a'. adjacent a a' \<and> in_bounds grid a' \<and> Suc (manhattan a' b) = manhattan a b"
proof -
  obtain x y where a: "a = (x, y)" by (cases a)
  obtain u w where b: "b = (u, w)" by (cases b)
  consider "x < u" | "u < x" | "x = u" "y < w" | "x = u" "w < y"
    using assms(3) a b by fastforce
  then show ?thesis
  proof cases
    case 1
    with assms(1,2) a b have "adjacent a (x + 1, y) \<and> in_bounds grid (x + 1, y) \<and>
        Suc (manhattan (x + 1, y) b) = manhattan a b"
      by (auto simp: adjacent_def directions_def shift_def in_bounds_def manhattan_def)
    then show ?thesis by blast
  next
    case 2
    with assms(1,2) a b have "adjacent a (x - 1, y) \<and> in_bounds grid (x - 1, y) \<and>
        Suc (manhattan (x - 1, y) b) = manhattan a b"
      by (auto simp: adjacent_def directions_def shift_def in_bounds_def manhattan_def)
    then show ?thesis by blast
  next
    case 3
    with assms(1,2) a b have "adjacent a (x, y + 1) \<and> in_bounds grid (x, y + 1) \<and>
        Suc (manhattan (x, y + 1) b) = manhattan a b"
      by (auto simp: adjacent_def directions_def shift_def in_bounds_def manhattan_def)
    then show ?thesis by blast
  next
    case 4
    with assms(1,2) a b have "adjacent a (x, y - 1) \<and> in_bounds grid (x, y - 1) \<and>
        Suc (manhattan (x, y - 1) b) = manhattan a b"
      by (auto simp: adjacent_def directions_def shift_def in_bounds_def manhattan_def)
    then show ?thesis by blast
  qed
qed

lemma manhattan_path:
  assumes r: "rectangular grid" and o: "no_obstacles grid" and b: "in_bounds grid b"
  shows "manhattan a b = n \<Longrightarrow> in_bounds grid a \<Longrightarrow>
         \<exists>p. path_between grid a b p \<and> length p = Suc n"
proof (induction n arbitrary: a)
  case 0
  then have "a = b" by (auto simp: manhattan_def prod_eq_iff)
  then have "path_between grid a b [a]" by (simp add: path_between_def)
  then show ?case by force
next
  case (Suc n)
  then have "a \<noteq> b" by (auto simp: manhattan_def)
  from step_toward [OF Suc.prems(2) b this] obtain a' where
    a': "adjacent a a'" "in_bounds grid a'" "Suc (manhattan a' b) = manhattan a b" by blast
  with Suc.prems(1) have "manhattan a' b = n" by simp
  from Suc.IH [OF this a'(2)] obtain p where
    p: "path_between grid a' b p" "length p = Suc n" by blast
  from p(1) have q: "p \<noteq> []" "hd p = a'" "last p = b" "moves_ok grid p"
    by (simp_all add: path_between_def)
  from no_obstacles_free [OF r o a'(2)] a'(1) q
  have "path_between grid a b (a # p)"
    by (simp add: path_between_def moves_ok_Cons)
  with p(2) show ?case by force
qed

section \<open>Termination on every input\<close>

text \<open>
  The facts below hold for any grid, rectangular or not, and any start: every cell of the
  frontier has a predecessor chain, so the walk back from the destination ends; and a
  cell with non-negative coordinates that is not marked has no entry in the dictionary.
\<close>

lemma mark_Inr:
  assumes "mark v x y = Inr v'"
  shows "\<exists>i j. i < length v \<and> j < length (v ! i) \<and> v' = v[i := (v ! i)[j := True]] \<and>
           (0 \<le> x \<longrightarrow> i = nat x) \<and> (0 \<le> y \<longrightarrow> j = nat y)"
proof -
  from assms obtain i where i: "position (length v) x = Some i"
    by (auto simp: mark_def getitem_def split: option.splits sum.splits)
  with assms obtain j where j: "position (length (v ! i)) y = Some j"
    by (auto simp: mark_def getitem_def setitem_def split: option.splits sum.splits)
  from assms i j have "v' = v[i := (v ! i)[j := True]]"
    by (simp add: mark_def getitem_def setitem_def)
  with position_Some [OF i] position_Some [OF j] show ?thesis by blast
qed

lemma seen_update:
  assumes "0 \<le> x" "nat x < length v" "0 \<le> y" "nat y < length (v ! nat x)"
  shows "seen (v[nat x := (v ! nat x)[nat y := True]]) c \<longleftrightarrow> c = (x, y) \<or> seen v c"
proof (cases "nat (fst c) = nat x")
  case False
  with assms show ?thesis by (auto simp: seen_def)
next
  case True
  with assms show ?thesis
    by (cases c) (auto simp: seen_def nth_list_update)
qed

text \<open>What one iteration of the for loop does when it does not raise.\<close>

lemma visit_Inr:
  assumes "visit grid cur d (fr, v, par) = Inr (fr', v', par')"
  shows "(fr' = fr \<and> v' = v \<and> par' = par) \<or>
         (fr' = fr @ [shift cur d] \<and> par' = par(shift cur d \<mapsto> Some cur) \<and>
          0 \<le> fst (shift cur d) \<and> 0 \<le> snd (shift cur d) \<and>
          \<not> seen v (shift cur d) \<and> (\<forall>c. seen v' c \<longleftrightarrow> c = shift cur d \<or> seen v c))"
proof -
  let ?x = "fst cur + fst d" and ?y = "snd cur + snd d"
  have w: "shift cur d = (?x, ?y)" by (simp add: shift_def)
  show ?thesis
  proof (cases "is_valid_move ?x ?y grid v = Inr True")
    case False
    with assms show ?thesis
      by (auto simp: visit_def Let_def split: sum.splits if_splits)
  next
    case True
    then have x: "0 \<le> ?x" "nat ?x < length v"
      and y: "0 \<le> ?y" "nat ?y < length (v ! nat ?x)"
      and s: "\<not> v ! nat ?x ! nat ?y"
      by (auto simp: is_valid_move_def split: sum.splits if_splits dest!: getitem_Inr)
    from x y have m: "mark v ?x ?y = Inr (v[nat ?x := (v ! nat ?x)[nat ?y := True]])"
      by (simp add: mark_def getitem_nat setitem_nat)
    from assms True m have e: "v' = v[nat ?x := (v ! nat ?x)[nat ?y := True]]"
      "fr' = fr @ [(?x, ?y)]" "par' = par((?x, ?y) \<mapsto> Some cur)"
      by (auto simp: visit_def Let_def)
    from s have "\<not> seen v (?x, ?y)" by (simp add: seen_def)
    moreover from seen_update [OF x(1,2) y(1,2)] e(1)
    have "\<forall>c. seen v' c \<longleftrightarrow> c = (?x, ?y) \<or> seen v c" by simp
    ultimately show ?thesis using e(2,3) x(1) y(1) w by simp
  qed
qed

definition tinv :: "state \<Rightarrow> bool" where
  "tinv st =
     (case st of (fr, v, par) \<Rightarrow>
        (\<forall>c \<in> set fr. \<exists>p. chain par c p) \<and>
        (\<forall>c. 0 \<le> fst c \<longrightarrow> 0 \<le> snd c \<longrightarrow> \<not> seen v c \<longrightarrow> par c = None))"

lemma visit_tinv:
  assumes "visit grid cur d (fr, v, par) = Inr (fr', v', par')"
    and "tinv (fr, v, par)" and "\<exists>p. chain par cur p"
  shows "tinv (fr', v', par') \<and> (\<exists>p. chain par' cur p)"
proof -
  from visit_Inr [OF assms(1)] show ?thesis
  proof
    assume "fr' = fr \<and> v' = v \<and> par' = par"
    with assms(2,3) show ?thesis by simp
  next
    let ?w = "shift cur d"
    assume a: "fr' = fr @ [?w] \<and> par' = par(?w \<mapsto> Some cur) \<and>
          0 \<le> fst ?w \<and> 0 \<le> snd ?w \<and>
          \<not> seen v ?w \<and> (\<forall>c. seen v' c \<longleftrightarrow> c = ?w \<or> seen v c)"
    with assms(2) have n: "par ?w = None" unfolding tinv_def by auto
    from assms(3) obtain p where p: "chain par cur p" by blast
    have 1: "chain par' cur p" using a chain_update [OF p n] by simp
    then have "chain par' ?w (p @ [?w])" using a by (intro chain.link) simp_all
    then have 2: "\<exists>q. chain par' ?w q" by blast
    have 3: "\<exists>q. chain par' c q" if "c \<in> set fr" for c
    proof -
      from that assms(2) obtain q where "chain par c q" unfolding tinv_def by auto
      from chain_update [OF this n] a show ?thesis by auto
    qed
    have 4: "par' c = None" if "0 \<le> fst c" "0 \<le> snd c" "\<not> seen v' c" for c
    proof -
      from that(3) a have "c \<noteq> ?w" "\<not> seen v c" by auto
      with that(1,2) assms(2) a show ?thesis unfolding tinv_def by auto
    qed
    from a 2 3 4 have "tinv (fr', v', par')" unfolding tinv_def by auto
    with 1 show ?thesis by blast
  qed
qed

lemma explore_tinv:
  "explore grid cur ds (fr, v, par) = Inr (fr', v', par') \<Longrightarrow> tinv (fr, v, par) \<Longrightarrow>
   \<exists>p. chain par cur p \<Longrightarrow> tinv (fr', v', par')"
proof (induction ds arbitrary: fr v par)
  case Nil
  then show ?case by simp
next
  case (Cons d ds)
  from Cons.prems(1) obtain f1 v1 p1 where
    1: "visit grid cur d (fr, v, par) = Inr (f1, v1, p1)"
    and 2: "explore grid cur ds (f1, v1, p1) = Inr (fr', v', par')"
    by (auto split: sum.splits)
  from visit_tinv [OF 1 Cons.prems(2,3)] Cons.IH [OF 2] show ?case by blast
qed

lemma tinv_walk: "tinv (fr, v, par) \<Longrightarrow> c \<in> set fr \<Longrightarrow> \<exists>p. reconstruct par c = Some (Inr p)"
  unfolding tinv_def using reconstruct_chain by fastforce

lemma bfs_loop_returns: "tinv st \<Longrightarrow> \<exists>r. bfs_loop grid dest st = Some r"
proof (induction grid dest st rule: bfs_loop.induct)
  case (1 grid dest queue visited parent)
  show ?case
  proof (cases queue)
    case Nil
    then show ?thesis by simp
  next
    case (Cons current rest)
    show ?thesis
    proof (cases "current = dest")
      case True
      with Cons tinv_walk [OF "1.prems", of current] show ?thesis by auto
    next
      case False
      show ?thesis
      proof (cases "explore grid current directions (rest, visited, parent)")
        case (Inl e)
        with Cons False show ?thesis by simp
      next
        case (Inr st')
        obtain q' v' par' where st': "st' = (q', v', par')" by (cases st')
        from "1.prems" Cons have t: "tinv (rest, visited, parent)" "\<exists>p. chain parent current p"
          unfolding tinv_def by auto
        from explore_tinv [OF Inr [unfolded st'] t] st' have "tinv st'" by simp
        from "1.IH" [OF Cons False Inr this] Cons False Inr show ?thesis by simp
      qed
    qed
  qed
qed

lemma dfs_loop_returns: "tinv st \<Longrightarrow> \<exists>r. dfs_loop grid dest st = Some r"
proof (induction grid dest st rule: dfs_loop.induct)
  case (1 grid dest stack visited parent)
  show ?case
  proof (cases "stack = []")
    case True
    then show ?thesis by simp
  next
    case ne: False
    then have l: "last stack \<in> set stack" by simp
    show ?thesis
    proof (cases "last stack = dest")
      case True
      with ne tinv_walk [OF "1.prems" l] show ?thesis by auto
    next
      case False
      show ?thesis
      proof (cases "explore grid (last stack) directions (butlast stack, visited, parent)")
        case (Inl e)
        with ne False show ?thesis by simp
      next
        case (Inr st')
        obtain q' v' par' where st': "st' = (q', v', par')" by (cases st')
        from "1.prems" l have t: "tinv (butlast stack, visited, parent)"
          "\<exists>p. chain parent (last stack) p"
          unfolding tinv_def by (auto dest: in_set_butlastD)
        from explore_tinv [OF Inr [unfolded st'] t] st' have "tinv st'" by simp
        from "1.IH" [OF ne False Inr this] ne False Inr show ?thesis by simp
      qed
    qed
  qed
qed

lemma tinv_init:
  assumes "mark (new_visited grid) (fst start) (snd start) = Inr v"
  shows "tinv ([start], v, [start \<mapsto> None])"
proof -
  have c: "chain [start \<mapsto> None] start [start]" by (rule chain.root) simp
  have "seen v start" if "0 \<le> fst start" "0 \<le> snd start"
  proof -
    from mark_Inr [OF assms] that obtain v0 where
      v0: "v0 = new_visited grid" "nat (fst start) < length v0"
      "nat (snd start) < length (v0 ! nat (fst start))"
      "v = v0[nat (fst start) := (v0 ! nat (fst start))[nat (snd start) := True]]"
      by auto
    from seen_update [OF that(1) v0(2) that(2) v0(3), of start] v0(4) show ?thesis by simp
  qed
  with c show ?thesis unfolding tinv_def by auto
qed

lemma bfs_returns: "\<exists>r. bfs start dest grid = Some r"
proof (cases "mark (new_visited grid) (fst start) (snd start)")
  case (Inl e)
  then show ?thesis by (simp add: bfs_def)
next
  case (Inr v)
  with bfs_loop_returns [OF tinv_init [OF Inr]] show ?thesis by (simp add: bfs_def)
qed

lemma dfs_returns: "\<exists>r. dfs start dest grid = Some r"
proof (cases "mark (new_visited grid) (fst start) (snd start)")
  case (Inl e)
  then show ?thesis by (simp add: dfs_def)
next
  case (Inr v)
  with dfs_loop_returns [OF tinv_init [OF Inr]] show ?thesis by (simp add: dfs_def)
qed

section \<open>Counting the dequeue steps\<close>

text \<open>
  \<open>bfs_dequeues\<close> follows the loop of \<open>bfs_loop\<close> branch by branch and counts the
  executions of \<^verbatim>\<open>queue.popleft()\<close>; \<open>dfs_pops\<close> does the same for \<^verbatim>\<open>stack.pop()\<close> in
  \<open>dfs_loop\<close>. \<open>bfs_steps\<close> and \<open>dfs_steps\<close> are the counts for a whole call (none when
  marking the start raises before the loop).
\<close>

function bfs_dequeues :: "grid \<Rightarrow> cell \<Rightarrow> state \<Rightarrow> nat" where
  "bfs_dequeues grid dest (queue, visited, parent) =
     (case queue of [] \<Rightarrow> 0
      | current # rest \<Rightarrow>
          if current = dest then 1
          else (case explore grid current directions (rest, visited, parent) of
                  Inl e \<Rightarrow> 1
                | Inr st' \<Rightarrow> Suc (bfs_dequeues grid dest st')))"
  by pat_completeness auto
termination
proof (relation "measure (\<lambda>(grid, dest, queue, visited, parent). unvisited visited + length queue)")
  show "wf (measure (\<lambda>(grid, dest, queue, visited, parent). unvisited visited + length queue))"
    by simp
next
  fix grid :: grid and dest :: cell and queue visited parent current rest st'
  assume "queue = current # rest"
    and "explore grid current directions (rest, visited, parent) = Inr st'"
  then show "((grid, dest, st'), (grid, dest, queue, visited, parent))
      \<in> measure (\<lambda>(grid, dest, queue, visited, parent). unvisited visited + length queue)"
    using explore_measure [of grid current directions rest visited parent "fst st'" "fst (snd st')" "snd (snd st')"]
    by (cases st') auto
qed

definition bfs_steps :: "cell \<Rightarrow> cell \<Rightarrow> grid \<Rightarrow> nat" where
  "bfs_steps start dest grid =
     (case mark (new_visited grid) (fst start) (snd start) of Inl e \<Rightarrow> 0
      | Inr visited \<Rightarrow> bfs_dequeues grid dest ([start], visited, [start \<mapsto> None]))"

function dfs_pops :: "grid \<Rightarrow> cell \<Rightarrow> state \<Rightarrow> nat" where
  "dfs_pops grid dest (stack, visited, parent) =
     (if stack = [] then 0
      else if last stack = dest then 1
      else (case explore grid (last stack) directions (butlast stack, visited, parent) of
              Inl e \<Rightarrow> 1
            | Inr st' \<Rightarrow> Suc (dfs_pops grid dest st')))"
  by pat_completeness auto
termination
proof (relation "measure (\<lambda>(grid, dest, stack, visited, parent). unvisited visited + length stack)")
  show "wf (measure (\<lambda>(grid, dest, stack, visited, parent). unvisited visited + length stack))"
    by simp
next
  fix grid :: grid and dest :: cell and stack visited parent st'
  assume "stack \<noteq> []"
    and "explore grid (last stack) directions (butlast stack, visited, parent) = Inr st'"
  then show "((grid, dest, st'), (grid, dest, stack, visited, parent))
      \<in> measure (\<lambda>(grid, dest, stack, visited, parent). unvisited visited + length stack)"
    using explore_measure [of grid "last stack" directions "butlast stack" visited parent "fst st'" "fst (snd st')" "snd (snd st')"]
    by (cases st') auto
qed

definition dfs_steps :: "cell \<Rightarrow> cell \<Rightarrow> grid \<Rightarrow> nat" where
  "dfs_steps start dest grid =
     (case mark (new_visited grid) (fst start) (snd start) of Inl e \<Rightarrow> 0
      | Inr visited \<Rightarrow> dfs_pops grid dest ([start], visited, [start \<mapsto> None]))"

lemma bfs_dequeues_bound:
  "bfs_dequeues grid dest st \<le> unvisited (fst (snd st)) + length (fst st)"
proof (induction grid dest st rule: bfs_dequeues.induct)
  case (1 grid dest queue visited parent)
  show ?case
  proof (cases queue)
    case Nil
    then show ?thesis by simp
  next
    case (Cons current rest)
    show ?thesis
    proof (cases "current = dest")
      case True
      with Cons show ?thesis by simp
    next
      case False
      show ?thesis
      proof (cases "explore grid current directions (rest, visited, parent)")
        case (Inl e)
        with Cons False show ?thesis by simp
      next
        case (Inr st')
        obtain q' v' par' where st': "st' = (q', v', par')" by (cases st')
        from explore_measure [OF Inr [unfolded st']]
        have "unvisited v' + length q' = unvisited visited + length rest" .
        with "1.IH" [OF Cons False Inr] Cons False Inr st' show ?thesis by simp
      qed
    qed
  qed
qed

lemma dfs_pops_bound:
  "dfs_pops grid dest st \<le> unvisited (fst (snd st)) + length (fst st)"
proof (induction grid dest st rule: dfs_pops.induct)
  case (1 grid dest stack visited parent)
  show ?case
  proof (cases stack rule: rev_cases)
    case Nil
    then show ?thesis by simp
  next
    case (snoc rest current)
    then have ne: "stack \<noteq> []" and l: "last stack = current" "butlast stack = rest"
      by simp_all
    show ?thesis
    proof (cases "current = dest")
      case True
      with snoc show ?thesis by simp
    next
      case False
      with l have nd: "last stack \<noteq> dest" by simp
      show ?thesis
      proof (cases "explore grid current directions (rest, visited, parent)")
        case (Inl e)
        with snoc False show ?thesis by simp
      next
        case (Inr st')
        obtain q' v' par' where st': "st' = (q', v', par')" by (cases st')
        from explore_measure [OF Inr [unfolded st']]
        have m: "unvisited v' + length q' = unvisited visited + length rest" .
        from Inr l have "explore grid (last stack) directions (butlast stack, visited, parent) = Inr st'"
          by simp
        from "1.IH" [OF ne nd this] m st'
        have "dfs_pops grid dest st' \<le> unvisited visited + length rest" by simp
        with snoc False Inr show ?thesis by simp
      qed
    qed
  qed
qed

lemma unvisited_new_visited: "unvisited (new_visited grid) = length grid * cols grid"
proof -
  have "filter Not (concat (replicate n (replicate m False))) =
      concat (replicate n (replicate m False))" for n m
    by (rule filter_True) auto
  moreover have "length (concat (replicate n (replicate m False))) = n * m" for n m :: nat
    by (induction n) simp_all
  ultimately show ?thesis by (simp add: unvisited_def new_visited_replicate)
qed

lemma mark_new_visited:
  assumes "mark (new_visited grid) x y = Inr v"
  shows "Suc (unvisited v) = length grid * cols grid"
proof -
  let ?v = "new_visited grid"
  from mark_Inr [OF assms] obtain i j where
    ij: "i < length ?v" "j < length (?v ! i)" "v = ?v[i := (?v ! i)[j := True]]" by blast
  then have "\<not> ?v ! i ! j" by (simp add: new_visited_replicate)
  from unvisited_update [OF ij(1,2) this] ij(3) show ?thesis
    by (simp add: unvisited_new_visited)
qed

lemma bfs_steps_le: "bfs_steps start dest grid \<le> length grid * cols grid"
proof (cases "mark (new_visited grid) (fst start) (snd start)")
  case (Inl e)
  then show ?thesis by (simp add: bfs_steps_def)
next
  case (Inr v)
  with bfs_dequeues_bound [of grid dest "([start], v, [start \<mapsto> None])"] mark_new_visited [OF Inr]
  show ?thesis by (simp add: bfs_steps_def)
qed

lemma dfs_steps_le: "dfs_steps start dest grid \<le> length grid * cols grid"
proof (cases "mark (new_visited grid) (fst start) (snd start)")
  case (Inl e)
  then show ?thesis by (simp add: dfs_steps_def)
next
  case (Inr v)
  with dfs_pops_bound [of grid dest "([start], v, [start \<mapsto> None])"] mark_new_visited [OF Inr]
  show ?thesis by (simp add: dfs_steps_def)
qed

section \<open>Returned paths on every input\<close>

text \<open>
  Whatever the grid and the start, a cell that enters the frontier was accepted by the
  move validator, so it is in bounds and free. \<open>pinv\<close> records that the chain of every
  frontier cell is a repetition-free sequence of legal moves from the start through
  cells that have an entry in the dictionary.
\<close>

lemma is_valid_move_free:
  assumes "is_valid_move x y grid v = Inr True"
  shows "free grid (x, y)"
proof -
  from assms have x: "0 \<le> x" "x < int (length grid)"
    by (auto simp: is_valid_move_def split: if_splits)
  then have ne: "grid \<noteq> []" by auto
  from assms x have y: "0 \<le> y" "y < int (length (grid ! 0))"
    by (auto simp: is_valid_move_def getitem_first [OF ne] split: if_splits)
  from x have gx: "getitem grid x = Inr (grid ! nat x)" by (simp add: getitem_nat)
  from assms x y gx obtain occ where
    o: "getitem (grid ! nat x) y = Inr occ" "occ = 0"
    by (auto simp: is_valid_move_def getitem_first [OF ne] split: if_splits sum.splits)
  from getitem_Inr [OF o(1) y(1)] o(2) have "grid ! nat x ! nat y = 0" by simp
  with x y cols_first [OF ne] show ?thesis by (simp add: free_def in_bounds_def)
qed

lemma visit_Inr_free:
  assumes "visit grid cur d (fr, v, par) = Inr (fr', v', par')" and "fr' \<noteq> fr"
  shows "free grid (shift cur d)"
proof -
  from assms have "is_valid_move (fst cur + fst d) (snd cur + snd d) grid v = Inr True"
    by (auto simp: visit_def Let_def split: sum.splits if_splits)
  from is_valid_move_free [OF this] show ?thesis by (simp add: shift_def)
qed

definition path_like :: "grid \<Rightarrow> cell \<Rightarrow> parent \<Rightarrow> cell \<Rightarrow> bool" where
  "path_like grid start par c =
     (\<exists>p. chain par c p \<and> hd p = start \<and> moves_ok grid p \<and> distinct p \<and>
          (\<forall>x \<in> set p. par x \<noteq> None))"

definition pinv :: "grid \<Rightarrow> cell \<Rightarrow> state \<Rightarrow> bool" where
  "pinv grid start st =
     (case st of (fr, v, par) \<Rightarrow>
        (\<forall>c \<in> set fr. path_like grid start par c) \<and>
        (\<forall>c. 0 \<le> fst c \<longrightarrow> 0 \<le> snd c \<longrightarrow> \<not> seen v c \<longrightarrow> par c = None))"

lemma path_like_update:
  assumes "path_like grid start par c" and "par w = None"
  shows "path_like grid start (par(w \<mapsto> x)) c"
proof -
  from assms(1) obtain p where p: "chain par c p" "hd p = start" "moves_ok grid p" "distinct p"
    "\<forall>x \<in> set p. par x \<noteq> None" unfolding path_like_def by blast
  from chain_update [OF p(1) assms(2), of x] p(2,3,4,5) show ?thesis
    unfolding path_like_def by (intro exI [of _ p]) auto
qed

lemma path_like_extend:
  assumes "path_like grid start par cur" and "par w = None"
    and "adjacent cur w" and "free grid w"
  shows "path_like grid start (par(w \<mapsto> Some cur)) w"
proof -
  let ?par = "par(w \<mapsto> Some cur)"
  from assms(1) obtain p where p: "chain par cur p" "hd p = start" "moves_ok grid p" "distinct p"
    "\<forall>x \<in> set p. par x \<noteq> None" unfolding path_like_def by blast
  from chain_last [OF p(1)] have l: "p \<noteq> []" "last p = cur" by auto
  have "chain ?par cur p" by (rule chain_update [OF p(1) assms(2)])
  then have "chain ?par w (p @ [w])" by (rule chain.link) simp
  moreover from l p(2) have "hd (p @ [w]) = start" by simp
  moreover from l p(3) assms(3,4) have "moves_ok grid (p @ [w])" by (simp add: moves_ok_snoc)
  moreover from p(4,5) assms(2) have "distinct (p @ [w])" by auto
  moreover from p(5) have "\<forall>x \<in> set (p @ [w]). ?par x \<noteq> None" by auto
  ultimately show ?thesis unfolding path_like_def by blast
qed

lemma visit_pinv:
  assumes e: "visit grid cur d (fr, v, par) = Inr (fr', v', par')" and d: "d \<in> set directions"
    and i: "pinv grid start (fr, v, par)" and c: "path_like grid start par cur"
  shows "pinv grid start (fr', v', par') \<and> path_like grid start par' cur"
proof -
  from visit_Inr [OF e] show ?thesis
  proof
    assume "fr' = fr \<and> v' = v \<and> par' = par"
    with i c show ?thesis by simp
  next
    let ?w = "shift cur d"
    assume a: "fr' = fr @ [?w] \<and> par' = par(?w \<mapsto> Some cur) \<and>
          0 \<le> fst ?w \<and> 0 \<le> snd ?w \<and>
          \<not> seen v ?w \<and> (\<forall>c. seen v' c \<longleftrightarrow> c = ?w \<or> seen v c)"
    with i have n: "par ?w = None" unfolding pinv_def by auto
    from a have "fr' \<noteq> fr" by simp
    from visit_Inr_free [OF e this] have f: "free grid ?w" .
    from d have adj: "adjacent cur ?w" by (auto simp: adjacent_def)
    have 1: "path_like grid start par' cur" using a path_like_update [OF c n] by simp
    have 2: "path_like grid start par' ?w" using a path_like_extend [OF c n adj f] by simp
    have 3: "path_like grid start par' x" if "x \<in> set fr" for x
    proof -
      from that i have "path_like grid start par x" unfolding pinv_def by auto
      from path_like_update [OF this n] a show ?thesis by simp
    qed
    have 4: "par' x = None" if "0 \<le> fst x" "0 \<le> snd x" "\<not> seen v' x" for x
    proof -
      from that(3) a have "x \<noteq> ?w" "\<not> seen v x" by auto
      with that(1,2) i a show ?thesis unfolding pinv_def by auto
    qed
    from a 2 3 4 have "pinv grid start (fr', v', par')" unfolding pinv_def by auto
    with 1 show ?thesis by blast
  qed
qed

lemma explore_pinv:
  "explore grid cur ds (fr, v, par) = Inr (fr', v', par') \<Longrightarrow> set ds \<subseteq> set directions \<Longrightarrow>
   pinv grid start (fr, v, par) \<Longrightarrow> path_like grid start par cur \<Longrightarrow>
   pinv grid start (fr', v', par')"
proof (induction ds arbitrary: fr v par)
  case Nil
  then show ?case by simp
next
  case (Cons d ds)
  from Cons.prems(1) obtain f1 v1 p1 where
    1: "visit grid cur d (fr, v, par) = Inr (f1, v1, p1)"
    and 2: "explore grid cur ds (f1, v1, p1) = Inr (fr', v', par')"
    by (auto split: sum.splits)
  from Cons.prems(2) have d: "d \<in> set directions" and ds: "set ds \<subseteq> set directions" by auto
  from visit_pinv [OF 1 d Cons.prems(3,4)] Cons.IH [OF 2 ds] show ?case by blast
qed

lemma pinv_found:
  assumes "pinv grid start (fr, v, par)" and "dest \<in> set fr"
    and "reconstruct par dest = Some (Inr p)"
  shows "path_between grid start dest p \<and> distinct p"
proof -
  from assms(1,2) obtain q where q: "chain par dest q" "hd q = start" "moves_ok grid q"
    "distinct q" unfolding pinv_def path_like_def by auto
  from reconstruct_chain [OF q(1)] assms(3) have "p = q" by simp
  with q chain_last [OF q(1)] show ?thesis by (simp add: path_between_def)
qed

lemma bfs_loop_pinv:
  "pinv grid start st \<Longrightarrow> bfs_loop grid dest st = Some (Inr p) \<Longrightarrow> p \<noteq> [] \<Longrightarrow>
   path_between grid start dest p \<and> distinct p"
proof (induction grid dest st rule: bfs_loop.induct)
  case (1 grid dest queue visited parent)
  show ?case
  proof (cases queue)
    case Nil
    with "1.prems"(2,3) show ?thesis by simp
  next
    case (Cons current rest)
    show ?thesis
    proof (cases "current = dest")
      case True
      with Cons "1.prems"(2) have "reconstruct parent dest = Some (Inr p)" by simp
      moreover from True Cons have "dest \<in> set queue" by simp
      ultimately show ?thesis using pinv_found [OF "1.prems"(1)] by blast
    next
      case False
      show ?thesis
      proof (cases "explore grid current directions (rest, visited, parent)")
        case (Inl e)
        with Cons False "1.prems"(2) show ?thesis by simp
      next
        case (Inr st')
        obtain q' v' par' where st': "st' = (q', v', par')" by (cases st')
        from "1.prems"(1) Cons have t: "pinv grid start (rest, visited, parent)"
          "path_like grid start parent current"
          unfolding pinv_def by auto
        from explore_pinv [OF Inr [unfolded st'] subset_refl t] st' have i: "pinv grid start st'"
          by simp
        from Cons False Inr "1.prems"(2) have "bfs_loop grid dest st' = Some (Inr p)" by simp
        from "1.IH" [OF Cons False Inr i this "1.prems"(3)] show ?thesis .
      qed
    qed
  qed
qed

lemma dfs_loop_pinv:
  "pinv grid start st \<Longrightarrow> dfs_loop grid dest st = Some (Inr p) \<Longrightarrow> p \<noteq> [] \<Longrightarrow>
   path_between grid start dest p \<and> distinct p"
proof (induction grid dest st rule: dfs_loop.induct)
  case (1 grid dest stack visited parent)
  show ?case
  proof (cases "stack = []")
    case True
    with "1.prems"(2,3) show ?thesis by simp
  next
    case ne: False
    then have l: "last stack \<in> set stack" by simp
    show ?thesis
    proof (cases "last stack = dest")
      case True
      with ne "1.prems"(2) have "reconstruct parent dest = Some (Inr p)" by simp
      moreover from True l have "dest \<in> set stack" by simp
      ultimately show ?thesis using pinv_found [OF "1.prems"(1)] by blast
    next
      case False
      show ?thesis
      proof (cases "explore grid (last stack) directions (butlast stack, visited, parent)")
        case (Inl e)
        with ne False "1.prems"(2) show ?thesis by simp
      next
        case (Inr st')
        obtain q' v' par' where st': "st' = (q', v', par')" by (cases st')
        from "1.prems"(1) l have t: "pinv grid start (butlast stack, visited, parent)"
          "path_like grid start parent (last stack)"
          unfolding pinv_def by (auto dest: in_set_butlastD)
        from explore_pinv [OF Inr [unfolded st'] subset_refl t] st' have i: "pinv grid start st'"
          by simp
        from ne False Inr "1.prems"(2) have "dfs_loop grid dest st' = Some (Inr p)" by simp
        from "1.IH" [OF ne False Inr i this "1.prems"(3)] show ?thesis .
      qed
    qed
  qed
qed

lemma pinv_init:
  assumes "mark (new_visited grid) (fst start) (snd start) = Inr v"
  shows "pinv grid start ([start], v, [start \<mapsto> None])"
proof -
  have "chain [start \<mapsto> None] start [start]" by (rule chain.root) simp
  then have c: "path_like grid start [start \<mapsto> None] start"
    unfolding path_like_def by (intro exI [of _ "[start]"]) simp
  from tinv_init [OF assms]
  have "\<forall>c. 0 \<le> fst c \<longrightarrow> 0 \<le> snd c \<longrightarrow> \<not> seen v c \<longrightarrow> ([start \<mapsto> None] :: parent) c = None"
    by (simp add: tinv_def del: fun_upd_apply)
  with c show ?thesis by (simp add: pinv_def del: fun_upd_apply)
qed

lemma returned_path:
  assumes "bfs start dest grid = Some (Inr p) \<or> dfs start dest grid = Some (Inr p)"
    and "p \<noteq> []"
  shows "path_between grid start dest p \<and> distinct p"
proof (cases "mark (new_visited grid) (fst start) (snd start)")
  case (Inl e)
  with assms(1) show ?thesis by (simp add: bfs_def dfs_def)
next
  case (Inr v)
  from assms(1) show ?thesis
  proof
    assume "bfs start dest grid = Some (Inr p)"
    with Inr have "bfs_loop grid dest ([start], v, [start \<mapsto> None]) = Some (Inr p)"
      by (simp add: bfs_def)
    from bfs_loop_pinv [OF pinv_init [OF Inr] this assms(2)] show ?thesis .
  next
    assume "dfs start dest grid = Some (Inr p)"
    with Inr have "dfs_loop grid dest ([start], v, [start \<mapsto> None]) = Some (Inr p)"
      by (simp add: dfs_def)
    from dfs_loop_pinv [OF pinv_init [OF Inr] this assms(2)] show ?thesis .
  qed
qed

section \<open>Properties of the two searches\<close>

text \<open>C7: for every grid and every in-bounds cell \<open>c\<close>, \<open>bfs\<close> and \<open>dfs\<close> called with
  start = destination = \<open>c\<close> return the single-element path \<open>[c]\<close>.\<close>

theorem same_cell_path:
  assumes "in_bounds grid c"
  shows "bfs c c grid = Some (Inr [c]) \<and> dfs c c grid = Some (Inr [c])"
proof -
  from mark_start [OF assms] obtain visited where
    "mark (new_visited grid) (fst c) (snd c) = Inr visited" by blast
  then show ?thesis
    by (simp add: bfs_def dfs_def reconstruct_root)
qed

theorem same_cell_path_witness:
  "in_bounds [[0, 1], [1, 0]] (1, 1) \<and>
   bfs (1, 1) (1, 1) [[0, 1], [1, 0]] = Some (Inr [(1, 1)]) \<and>
   dfs (1, 1) (1, 1) [[0, 1], [1, 0]] = Some (Inr [(1, 1)])"
proof -
  have h: "in_bounds [[0, 1], [1, 0]] (1, 1)"
    by (simp add: in_bounds_def cols_def)
  from same_cell_path [OF h] h show ?thesis by simp
qed

text \<open>C2 (as amended): on a rectangular grid with the start in bounds, for every
  destination, \<open>bfs\<close> and \<open>dfs\<close> both return a path (they do not raise), and the path
  returned is non-empty if and only if the destination can be reached from the start by
  moves into in-bounds free cells; so both return the empty list exactly when the
  destination is unreachable.\<close>

theorem path_iff_reachable:
  assumes "rectangular grid" and "in_bounds grid start"
  shows "\<exists>p q. bfs start dest grid = Some (Inr p) \<and> dfs start dest grid = Some (Inr q) \<and>
           (p \<noteq> [] \<longleftrightarrow> reachable grid start dest) \<and>
           (q \<noteq> [] \<longleftrightarrow> reachable grid start dest)"
proof -
  from search_ok_returns [OF bfs_search_ok [OF assms]] obtain p where
    p: "bfs start dest grid = Some (Inr p)" by blast
  from search_ok_returns [OF dfs_search_ok [OF assms]] obtain q where
    q: "dfs start dest grid = Some (Inr q)" by blast
  from bfs_search_ok [OF assms, of dest] p have "p \<noteq> [] \<longleftrightarrow> reachable grid start dest"
    by (simp add: search_ok_reachable)
  moreover from dfs_search_ok [OF assms, of dest] q have "q \<noteq> [] \<longleftrightarrow> reachable grid start dest"
    by (simp add: search_ok_reachable)
  ultimately show ?thesis using p q by blast
qed

theorem path_iff_reachable_witness:
  "rectangular [[0, 0, 1], [1, 0, 0]] \<and> in_bounds [[0, 0, 1], [1, 0, 0]] (0, 0) \<and>
   bfs (0, 0) (1, 2) [[0, 0, 1], [1, 0, 0]] = Some (Inr [(0, 0), (0, 1), (1, 1), (1, 2)]) \<and>
   reachable [[0, 0, 1], [1, 0, 0]] (0, 0) (1, 2) \<and>
   dfs (0, 0) (1, 0) [[0, 0, 1], [1, 0, 0]] = Some (Inr []) \<and>
   \<not> reachable [[0, 0, 1], [1, 0, 0]] (0, 0) (1, 0)"
proof -
  have r: "rectangular [[0, 0, 1], [1, 0, 0]]"
    by (simp add: rectangular_def cols_def)
  have b: "in_bounds [[0, 0, 1], [1, 0, 0]] (0, 0)"
    by (simp add: in_bounds_def cols_def)
  have e: "bfs (0, 0) (1, 2) [[0, 0, 1], [1, 0, 0]] = Some (Inr [(0, 0), (0, 1), (1, 1), (1, 2)])"
    by code_simp
  have f: "dfs (0, 0) (1, 0) [[0, 0, 1], [1, 0, 0]] = Some (Inr [])"
    by code_simp
  from path_iff_reachable [OF r b, of "(1, 2)"] e
  have 1: "reachable [[0, 0, 1], [1, 0, 0]] (0, 0) (1, 2)" by auto
  from path_iff_reachable [OF r b, of "(1, 0)"] f
  have 2: "\<not> reachable [[0, 0, 1], [1, 0, 0]] (0, 0) (1, 0)" by auto
  from r b e f 1 2 show ?thesis by blast
qed

text \<open>The claim as stated, for every start, fails when the start is out of bounds: marking
  the start raises IndexError before the loop begins, so an unreachable destination does
  not give the empty path.\<close>

theorem out_of_bounds_start_counterexample:
  "\<not> reachable [[0]] (5, 5) (0, 0) \<and>
   bfs (5, 5) (0, 0) [[0]] = Some (Inl IndexError) \<and>
   dfs (5, 5) (0, 0) [[0]] = Some (Inl IndexError)"
proof -
  have "\<not> reachable [[0]] (5, 5) (0, 0)"
  proof
    assume "reachable [[0]] (5, 5) (0, 0)"
    then obtain p where p: "p \<noteq> []" "hd p = (5, 5)" "last p = (0, 0)" "moves_ok [[0]] p"
      by (auto simp: reachable_def path_between_def)
    from p(1,2) obtain r where r: "p = (5, 5) # r" by (cases p) auto
    with p(3) have "r \<noteq> []" by auto
    then obtain b q where "r = b # q" by (cases r) auto
    with r p(4) have "adjacent (5, 5) b" "free [[0]] b" by simp_all
    then show False
      by (auto simp: adjacent_def directions_def shift_def free_def in_bounds_def cols_def)
  qed
  moreover have "bfs (5, 5) (0, 0) [[0]] = Some (Inl IndexError)" by code_simp
  moreover have "dfs (5, 5) (0, 0) [[0]] = Some (Inl IndexError)" by code_simp
  ultimately show ?thesis by blast
qed

text \<open>C3: when \<open>bfs\<close> or \<open>dfs\<close> returns a non-empty path, its first cell is the start and
  its last cell is the destination.\<close>

theorem path_endpoints:
  assumes "bfs start dest grid = Some (Inr p) \<or> dfs start dest grid = Some (Inr p)"
    and "p \<noteq> []"
  shows "hd p = start \<and> last p = dest"
  using returned_path [OF assms] by (simp add: path_between_def)

theorem path_endpoints_witness:
  "dfs (0, 0) (1, 1) [[0, 0], [0, 0]] = Some (Inr [(0, 0), (0, 1), (1, 1)]) \<and>
   [(0, 0), (0, 1), (1, 1)] \<noteq> ([] :: cell list) \<and>
   hd [(0, 0), (0, 1), (1, 1)] = ((0, 0) :: cell) \<and>
   last [(0, 0), (0, 1), (1, 1)] = ((1, 1) :: cell)"
proof -
  have e: "dfs (0, 0) (1, 1) [[0, 0], [0, 0]] = Some (Inr [(0, 0), (0, 1), (1, 1)])"
    by code_simp
  have n: "[(0, 0), (0, 1), (1, 1)] \<noteq> ([] :: cell list)" by simp
  from path_endpoints [OF disjI2 [OF e] n] e n show ?thesis by blast
qed

text \<open>C4: in a non-empty path returned by \<open>bfs\<close> or \<open>dfs\<close>, the difference between each
  cell and the cell before it is one of the four offsets of \<open>directions\<close>.\<close>

theorem path_steps_are_offsets:
  assumes "bfs start dest grid = Some (Inr p) \<or> dfs start dest grid = Some (Inr p)"
    and "Suc i < length p"
  shows "(fst (p ! Suc i) - fst (p ! i), snd (p ! Suc i) - snd (p ! i)) \<in> set directions"
proof -
  from assms(2) have "p \<noteq> []" by auto
  from returned_path [OF assms(1) this] have "moves_ok grid p" by (simp add: path_between_def)
  from moves_ok_nth [OF this assms(2)] obtain d where
    d: "d \<in> set directions" "p ! Suc i = shift (p ! i) d" by (auto simp: adjacent_def)
  from d(2) have "(fst (p ! Suc i) - fst (p ! i), snd (p ! Suc i) - snd (p ! i)) = d"
    by (simp add: shift_def)
  with d(1) show ?thesis by simp
qed

theorem path_steps_are_offsets_witness:
  "bfs (0, 0) (1, 1) [[0, 0], [0, 0]] = Some (Inr [(0, 0), (1, 0), (1, 1)]) \<and>
   Suc 1 < length [(0, 0), (1, 0), (1, 1) :: cell] \<and>
   ((1, 0) :: cell) \<in> set directions \<and> ((0, 1) :: cell) \<in> set directions"
proof -
  have e: "bfs (0, 0) (1, 1) [[0, 0], [0, 0]] = Some (Inr [(0, 0), (1, 0), (1, 1)])"
    by code_simp
  have n: "Suc 1 < length [(0, 0), (1, 0), (1, 1) :: cell]" by simp
  from path_steps_are_offsets [OF disjI1 [OF e], of 0]
  have 1: "((1, 0) :: cell) \<in> set directions" by simp
  from path_steps_are_offsets [OF disjI1 [OF e] n]
  have 2: "((0, 1) :: cell) \<in> set directions" by simp
  from e n 1 2 show ?thesis by blast
qed

text \<open>C5: in a non-empty path returned by \<open>bfs\<close> or \<open>dfs\<close>, every cell other than the
  start is in bounds and has occupancy 0 in the grid, and no cell occurs twice.\<close>

theorem path_cells_free_distinct:
  assumes "bfs start dest grid = Some (Inr p) \<or> dfs start dest grid = Some (Inr p)"
    and "p \<noteq> []"
  shows "(\<forall>c \<in> set p. c \<noteq> start \<longrightarrow>
            in_bounds grid c \<and> grid ! nat (fst c) ! nat (snd c) = 0) \<and> distinct p"
proof -
  from returned_path [OF assms] have p: "hd p = start" "moves_ok grid p" "distinct p"
    by (simp_all add: path_between_def)
  from moves_ok_tl [OF p(2)] have t: "\<forall>c \<in> set (tl p). free grid c" .
  have "free grid c" if "c \<in> set p" "c \<noteq> start" for c
  proof -
    from assms(2) have "p = hd p # tl p" by simp
    with that p(1) have "c \<in> set (tl p)" by (metis set_ConsD)
    with t show ?thesis by blast
  qed
  with p(3) show ?thesis by (auto simp: free_def)
qed

theorem path_cells_free_distinct_witness:
  "bfs (0, 0) (1, 1) [[1, 0], [0, 0]] = Some (Inr [(0, 0), (1, 0), (1, 1)]) \<and>
   [(0, 0), (1, 0), (1, 1)] \<noteq> ([] :: cell list) \<and>
   in_bounds [[1, 0], [0, 0]] (1, 0) \<and> [[1, 0], [0, 0]] ! nat 1 ! nat 0 = (0 :: int) \<and>
   distinct [(0, 0), (1, 0), (1, 1) :: cell]"
proof -
  have e: "bfs (0, 0) (1, 1) [[1, 0], [0, 0]] = Some (Inr [(0, 0), (1, 0), (1, 1)])"
    by code_simp
  have n: "[(0, 0), (1, 0), (1, 1)] \<noteq> ([] :: cell list)" by simp
  from path_cells_free_distinct [OF disjI1 [OF e] n] e show ?thesis by simp
qed

text \<open>C8 (as amended): on a rectangular grid with start and destination in bounds, \<open>bfs\<close>
  and \<open>dfs\<close> return a list and do not raise, whatever the occupancy of the two cells. The
  start is expanded without a test of its occupancy: a free neighbour of the start is
  found by both searches, also from a blocked start. A blocked destination other than
  the start yields the empty path.\<close>

theorem blocked_endpoints:
  assumes "rectangular grid" and "in_bounds grid start" and "in_bounds grid dest"
  shows "\<exists>p q. bfs start dest grid = Some (Inr p) \<and> dfs start dest grid = Some (Inr q) \<and>
           (adjacent start dest \<and> free grid dest \<longrightarrow> p \<noteq> [] \<and> q \<noteq> []) \<and>
           (grid ! nat (fst dest) ! nat (snd dest) \<noteq> 0 \<and> dest \<noteq> start \<longrightarrow> p = [] \<and> q = [])"
proof -
  from search_ok_returns [OF bfs_search_ok [OF assms(1,2)]] obtain p where
    p: "bfs start dest grid = Some (Inr p)" by blast
  from search_ok_returns [OF dfs_search_ok [OF assms(1,2)]] obtain q where
    q: "dfs start dest grid = Some (Inr q)" by blast
  from bfs_search_ok [OF assms(1,2), of dest] p have rp: "p \<noteq> [] \<longleftrightarrow> reachable grid start dest"
    by (simp add: search_ok_reachable)
  from dfs_search_ok [OF assms(1,2), of dest] q have rq: "q \<noteq> [] \<longleftrightarrow> reachable grid start dest"
    by (simp add: search_ok_reachable)
  have "p \<noteq> [] \<and> q \<noteq> []" if "adjacent start dest \<and> free grid dest"
    using that rp rq reachable_neighbour by blast
  moreover have "p = [] \<and> q = []"
    if "grid ! nat (fst dest) ! nat (snd dest) \<noteq> 0 \<and> dest \<noteq> start"
  proof -
    from that have "\<not> free grid dest" by (simp add: free_def)
    with that reachable_other_free have "\<not> reachable grid start dest" by blast
    with rp rq show ?thesis by simp
  qed
  ultimately show ?thesis using p q by blast
qed

theorem blocked_endpoints_witness:
  "rectangular [[1, 0], [0, 1]] \<and> in_bounds [[1, 0], [0, 1]] (0, 0) \<and>
   in_bounds [[1, 0], [0, 1]] (1, 1) \<and> [[1, 0], [0, 1]] ! nat 1 ! nat 1 \<noteq> (0 :: int) \<and>
   (1, 1) \<noteq> ((0, 0) :: cell) \<and>
   bfs (0, 0) (1, 1) [[1, 0], [0, 1]] = Some (Inr []) \<and>
   dfs (0, 0) (1, 1) [[1, 0], [0, 1]] = Some (Inr []) \<and>
   [[1, 0], [0, 1]] ! nat 0 ! nat 0 \<noteq> (0 :: int) \<and>
   in_bounds [[1, 0], [0, 1]] (0, 1) \<and> adjacent (0, 0) (0, 1) \<and> free [[1, 0], [0, 1]] (0, 1) \<and>
   bfs (0, 0) (0, 1) [[1, 0], [0, 1]] \<noteq> Some (Inr []) \<and>
   dfs (0, 0) (0, 1) [[1, 0], [0, 1]] \<noteq> Some (Inr [])"
proof -
  have r: "rectangular [[1, 0], [0, 1]]"
    by (simp add: rectangular_def cols_def)
  have b: "in_bounds [[1, 0], [0, 1]] (0, 0)" "in_bounds [[1, 0], [0, 1]] (1, 1)"
    by (simp_all add: in_bounds_def cols_def)
  have o: "[[1, 0], [0, 1]] ! nat 1 ! nat 1 \<noteq> (0 :: int)" "(1, 1) \<noteq> ((0, 0) :: cell)"
    "[[1, 0], [0, 1]] ! nat 0 ! nat 0 \<noteq> (0 :: int)"
    by simp_all
  have n: "in_bounds [[1, 0], [0, 1]] (0, 1)" "adjacent (0, 0) (0, 1)" "free [[1, 0], [0, 1]] (0, 1)"
    by (simp_all add: in_bounds_def cols_def adjacent_def directions_def shift_def free_def)
  from blocked_endpoints [OF r b] o
  have 1: "bfs (0, 0) (1, 1) [[1, 0], [0, 1]] = Some (Inr []) \<and>
    dfs (0, 0) (1, 1) [[1, 0], [0, 1]] = Some (Inr [])" by auto
  from blocked_endpoints [OF r b(1) n(1)] n
  have 2: "bfs (0, 0) (0, 1) [[1, 0], [0, 1]] \<noteq> Some (Inr []) \<and>
    dfs (0, 0) (0, 1) [[1, 0], [0, 1]] \<noteq> Some (Inr [])" by auto
  from r b o n 1 2 show ?thesis by blast
qed

text \<open>The claim as stated fails when the blocked destination is the start itself: the
  loop pops the start, finds it equal to the destination and returns the one-cell path.\<close>

theorem blocked_destination_counterexample:
  "in_bounds [[1]] (0, 0) \<and> [[1]] ! nat 0 ! nat 0 \<noteq> (0 :: int) \<and>
   bfs (0, 0) (0, 0) [[1]] = Some (Inr [(0, 0)]) \<and>
   dfs (0, 0) (0, 0) [[1]] = Some (Inr [(0, 0)])"
proof -
  have "bfs (0, 0) (0, 0) [[1]] = Some (Inr [(0, 0)])" by code_simp
  moreover have "dfs (0, 0) (0, 0) [[1]] = Some (Inr [(0, 0)])" by code_simp
  ultimately show ?thesis by (simp add: in_bounds_def cols_def)
qed

text \<open>C1: on a rectangular grid with the start in bounds, when the destination can be
  reached from the start by moves into in-bounds free cells, \<open>bfs\<close> returns a non-empty
  sequence of such moves from the start to the destination, and no such sequence from
  the start to the destination has fewer cells.\<close>

theorem bfs_shortest_path:
  assumes "rectangular grid" and "in_bounds grid start" and "reachable grid start dest"
  shows "\<exists>p. bfs start dest grid = Some (Inr p) \<and> p \<noteq> [] \<and>
           path_between grid start dest p \<and>
           (\<forall>r. path_between grid start dest r \<longrightarrow> length p \<le> length r)"
proof -
  from search_ok_returns [OF bfs_search_ok [OF assms(1,2)]] obtain p where
    p: "bfs start dest grid = Some (Inr p)" by blast
  from bfs_search_ok [OF assms(1,2), of dest] p assms(3) have n: "p \<noteq> []"
    by (simp add: search_ok_reachable)
  from found_path [OF assms(1,2) disjI1 [OF p] n] have "path_between grid start dest p" by simp
  moreover have "\<forall>r. path_between grid start dest r \<longrightarrow> length p \<le> length r"
    using bfs_minimal [OF assms(1,2) p n] by blast
  ultimately show ?thesis using p n by blast
qed

theorem bfs_shortest_path_witness:
  "rectangular [[0, 0, 0], [0, 1, 0], [0, 0, 0]] \<and>
   in_bounds [[0, 0, 0], [0, 1, 0], [0, 0, 0]] (0, 0) \<and>
   path_between [[0, 0, 0], [0, 1, 0], [0, 0, 0]] (0, 0) (2, 2)
     [(0, 0), (0, 1), (0, 2), (1, 2), (2, 2)] \<and>
   bfs (0, 0) (2, 2) [[0, 0, 0], [0, 1, 0], [0, 0, 0]] =
     Some (Inr [(0, 0), (1, 0), (2, 0), (2, 1), (2, 2)]) \<and>
   length [(0, 0), (1, 0), (2, 0), (2, 1), (2, 2) :: cell]
     \<le> length [(0, 0), (0, 1), (0, 2), (1, 2), (2, 2) :: cell]"
proof -
  have r: "rectangular [[0, 0, 0], [0, 1, 0], [0, 0, 0]]"
    by (simp add: rectangular_def cols_def)
  have b: "in_bounds [[0, 0, 0], [0, 1, 0], [0, 0, 0]] (0, 0)"
    by (simp add: in_bounds_def cols_def)
  have w: "path_between [[0, 0, 0], [0, 1, 0], [0, 0, 0]] (0, 0) (2, 2)
      [(0, 0), (0, 1), (0, 2), (1, 2), (2, 2)]"
    by (simp add: path_between_def adjacent_def directions_def shift_def free_def
        in_bounds_def cols_def)
  then have c: "reachable [[0, 0, 0], [0, 1, 0], [0, 0, 0]] (0, 0) (2, 2)"
    unfolding reachable_def by blast
  have e: "bfs (0, 0) (2, 2) [[0, 0, 0], [0, 1, 0], [0, 0, 0]] =
      Some (Inr [(0, 0), (1, 0), (2, 0), (2, 1), (2, 2)])"
    by code_simp
  from bfs_shortest_path [OF r b c] e w
  have "length [(0, 0), (1, 0), (2, 0), (2, 1), (2, 2) :: cell]
      \<le> length [(0, 0), (0, 1), (0, 2), (1, 2), (2, 2) :: cell]"
    by auto
  with r b w e show ?thesis by blast
qed



text \<open>C6: on a rectangular grid whose cells are all free, for in-bounds cells start and
  destination, \<open>bfs\<close> returns a path whose number of cells is the Manhattan distance
  between them plus one.\<close>

theorem bfs_manhattan:
  assumes "rectangular grid" and "no_obstacles grid"
    and "in_bounds grid start" and "in_bounds grid dest"
  shows "\<exists>p. bfs start dest grid = Some (Inr p) \<and> length p = manhattan start dest + 1"
proof -
  from manhattan_path [OF assms(1,2,4) refl assms(3)] obtain r where
    r: "path_between grid start dest r" "length r = Suc (manhattan start dest)" by blast
  then have c: "reachable grid start dest" unfolding reachable_def by blast
  from search_ok_returns [OF bfs_search_ok [OF assms(1,3)]] obtain p where
    p: "bfs start dest grid = Some (Inr p)" by blast
  from bfs_search_ok [OF assms(1,3), of dest] p c have n: "p \<noteq> []"
    by (simp add: search_ok_reachable)
  from found_path [OF assms(1,3) disjI1 [OF p] n]
  have "hd p = start" "last p = dest" "moves_ok grid p" by (simp_all add: path_between_def)
  with moves_manhattan [of grid p] n have "Suc (manhattan start dest) \<le> length p" by simp
  moreover from bfs_minimal [OF assms(1,3) p n r(1)] r(2)
  have "length p \<le> Suc (manhattan start dest)" by simp
  ultimately show ?thesis using p by simp
qed

theorem bfs_manhattan_witness:
  "rectangular [[0, 0, 0], [0, 0, 0], [0, 0, 0]] \<and>
   no_obstacles [[0, 0, 0], [0, 0, 0], [0, 0, 0]] \<and>
   in_bounds [[0, 0, 0], [0, 0, 0], [0, 0, 0]] (0, 0) \<and>
   in_bounds [[0, 0, 0], [0, 0, 0], [0, 0, 0]] (2, 2) \<and>
   bfs (0, 0) (2, 2) [[0, 0, 0], [0, 0, 0], [0, 0, 0]] =
     Some (Inr [(0, 0), (1, 0), (2, 0), (2, 1), (2, 2)]) \<and>
   manhattan (0, 0) (2, 2) + 1 = 5"
proof -
  have r: "rectangular [[0, 0, 0], [0, 0, 0], [0, 0, 0]]"
    by (simp add: rectangular_def cols_def)
  have o: "no_obstacles [[0, 0, 0], [0, 0, 0], [0, 0, 0]]"
    by (simp add: no_obstacles_def)
  have b: "in_bounds [[0, 0, 0], [0, 0, 0], [0, 0, 0]] (0, 0)"
    "in_bounds [[0, 0, 0], [0, 0, 0], [0, 0, 0]] (2, 2)"
    by (simp_all add: in_bounds_def cols_def)
  have e: "bfs (0, 0) (2, 2) [[0, 0, 0], [0, 0, 0], [0, 0, 0]] =
      Some (Inr [(0, 0), (1, 0), (2, 0), (2, 1), (2, 2)])"
    by code_simp
  from bfs_manhattan [OF r o b] e have "manhattan (0, 0) (2, 2) + 1 = 5" by auto
  with r o b e show ?thesis by blast
qed

text \<open>C10: for every grid, start and destination, \<open>bfs\<close> and \<open>dfs\<close> terminate (the
  result is a returned path or a raised error, never the value \<open>None\<close> of a call that
  does not return), and a call executes at most rows \<open>\<times>\<close> columns dequeue steps, that is
  \<^verbatim>\<open>len(grid) * len(grid[0])\<close>. An iteration of the for loop that does not raise either
  leaves the frontier and the visited table as they are, or appends one cell that was
  not visited and marks that cell and no other: a cell is marked at most once and only
  unvisited cells enter the frontier.\<close>

theorem searches_terminate:
  "(\<exists>r. bfs start dest grid = Some r) \<and> (\<exists>r. dfs start dest grid = Some r) \<and>
   bfs_steps start dest grid \<le> length grid * cols grid \<and>
   dfs_steps start dest grid \<le> length grid * cols grid \<and>
   (visit grid cur d (fr, v, par) = Inr (fr', v', par') \<longrightarrow>
      (fr' = fr \<and> v' = v) \<or>
      (fr' = fr @ [shift cur d] \<and> \<not> seen v (shift cur d) \<and>
       (\<forall>c. seen v' c \<longleftrightarrow> c = shift cur d \<or> seen v c)))"
proof -
  have "(fr' = fr \<and> v' = v) \<or>
      (fr' = fr @ [shift cur d] \<and> \<not> seen v (shift cur d) \<and>
       (\<forall>c. seen v' c \<longleftrightarrow> c = shift cur d \<or> seen v c))"
    if "visit grid cur d (fr, v, par) = Inr (fr', v', par')"
    using visit_Inr [OF that] by blast
  with bfs_returns [of start dest grid] dfs_returns [of start dest grid]
    bfs_steps_le [of start dest grid] dfs_steps_le [of start dest grid]
  show ?thesis by blast
qed

theorem searches_terminate_witness:
  "visit [[0, 0]] (0, 0) (0, 1) ([], [[True, False]], [(0, 0) \<mapsto> None]) =
     Inr ([(0, 1)], [[True, True]], [(0, 0) \<mapsto> None, (0, 1) \<mapsto> Some (0, 0)]) \<and>
   \<not> seen [[True, False]] (0, 1) \<and> seen [[True, True]] (0, 1) \<and>
   bfs_steps (0, 0) (0, 1) [[0, 0]] \<le> 2 \<and>
   (\<exists>r. bfs (0, 0) (0, 1) [[0, 0]] = Some r)"
proof -
  have e: "visit [[0, 0]] (0, 0) (0, 1) ([], [[True, False]], [(0, 0) \<mapsto> None]) =
      Inr ([(0, 1)], [[True, True]], [(0, 0) \<mapsto> None, (0, 1) \<mapsto> Some (0, 0)])"
    by (simp add: visit_def is_valid_move_def mark_def getitem_def setitem_def position_def)
  have s: "shift (0, 0) (0, 1) = (0, 1)" by (simp add: shift_def)
  from searches_terminate [of "(0, 0)" "(0, 1)" "[[0, 0]]" "(0, 0)" "(0, 1)" "[]"
      "[[True, False]]" "[(0, 0) \<mapsto> None]" "[(0, 1)]" "[[True, True]]"
      "[(0, 0) \<mapsto> None, (0, 1) \<mapsto> Some (0, 0)]"] e s
  have "\<not> seen [[True, False]] (0, 1) \<and> seen [[True, True]] (0, 1) \<and>
      bfs_steps (0, 0) (0, 1) [[0, 0]] \<le> length [[0, 0 :: int]] * cols [[0, 0]] \<and>
      (\<exists>r. bfs (0, 0) (0, 1) [[0, 0]] = Some r)"
    by auto
  with e show ?thesis by (simp add: cols_def)
qed

end
